theory Spec2Isabelle
  imports Complex_Main "HOL-Library.Word"
begin

section \<open>The pathfinding core: \<open>AbsGraph\<close> and \<open>AbsGrid\<close> of core.h\<close>

subsection \<open>Machine types\<close>

text \<open>
  A C++ \<open>int\<close> is a 32-bit word read in two's complement (\<open>sint\<close>); \<open>size_t\<close> is a
  64-bit word read unsigned (\<open>unat\<close>). Passing an \<open>int\<close> where a \<open>size_t\<close> is expected
  sign-extends it (\<open>scast\<close>), so a negative id becomes a huge index.
\<close>

type_synonym c_int = "32 word"
type_synonym size_t = "64 word"

text \<open>
  A C++ \<open>double\<close>: the finite values, the two infinities and NaN. \<open>Finite r\<close> is allowed
  for every real \<open>r\<close>, which is more than the representable values; the code of core.h
  only stores and compares doubles, it never computes with them. Both zeros are
  \<open>Finite 0\<close> (they compare equal). Comparisons follow IEEE 754: every comparison with
  NaN is false.
\<close>

datatype double = Finite real | PlusInf | MinusInf | NaN

fun double_less :: "double \<Rightarrow> double \<Rightarrow> bool" where
  "double_less (Finite a) (Finite b) = (a < b)"
| "double_less (Finite a) PlusInf = True"
| "double_less MinusInf (Finite b) = True"
| "double_less MinusInf PlusInf = True"
| "double_less _ _ = False"

definition double_eq :: "double \<Rightarrow> double \<Rightarrow> bool" where
  "double_eq a b = (a \<noteq> NaN \<and> a = b)"

definition double_ge :: "double \<Rightarrow> double \<Rightarrow> bool" where
  "double_ge a b = (double_less b a \<or> double_eq a b)"

text \<open>
  The exceptions of the header: \<open>std::invalid_argument\<close>, thrown explicitly, and
  \<open>std::out_of_range\<close>, thrown by \<open>vector::at\<close>. \<open>Undefined_behaviour\<close> marks an
  unchecked \<open>operator[]\<close> past the end, where C++ promises nothing.
\<close>

datatype error = Invalid_argument | Out_of_range | Undefined_behaviour

definition vector_at :: "'a list \<Rightarrow> size_t \<Rightarrow> error + 'a" where
  "vector_at xs n = (if unat n < length xs then Inr (xs ! unat n) else Inl Out_of_range)"

definition vector_index :: "'a list \<Rightarrow> size_t \<Rightarrow> error + 'a" where
  "vector_index xs n =
     (if unat n < length xs then Inr (xs ! unat n) else Inl Undefined_behaviour)"

text \<open>
  \<open>std::vector<double>::max_size()\<close> of the standard library (libstdc++ on a 64-bit
  target): \<open>PTRDIFF_MAX / sizeof(double)\<close>. No vector holds more elements.
\<close>

definition vector_max_size :: nat where
  "vector_max_size = (2 ^ 63 - 1) div 8"

subsection \<open>class AbsGraph\<close>

text \<open>
  The data members \<open>min_weight_\<close>, \<open>pause_action_cost_\<close>, \<open>edge_collision_\<close>,
  \<open>weights_\<close> and \<open>pause_action_cost_type_\<close> are the fields below; a field name cannot
  end in an underscore, so each ends in \<open>_m\<close>.
\<close>

record abs_graph =
  min_weight_m :: double
  pause_action_cost_m :: double
  edge_collision_m :: bool

text \<open>
  A \<open>void\<close> member function that may throw returns the exception, if any, together
  with the object as it is when the call ends.
\<close>

definition set_pause_action_cost ::
  "'a abs_graph_scheme \<Rightarrow> double \<Rightarrow> error option \<times> 'a abs_graph_scheme" where
  "set_pause_action_cost g cost =
     (if double_less cost (Finite 0) then (Some Invalid_argument, g)
      else (None, g\<lparr>pause_action_cost_m := cost\<rparr>))"

definition get_pause_action_cost :: "'a abs_graph_scheme \<Rightarrow> double" where
  "get_pause_action_cost g = pause_action_cost_m g"

definition min_weight :: "'a abs_graph_scheme \<Rightarrow> double" where
  "min_weight g = min_weight_m g"

definition set_edge_collision :: "'a abs_graph_scheme \<Rightarrow> bool \<Rightarrow> 'a abs_graph_scheme" where
  "set_edge_collision g b = g\<lparr>edge_collision_m := b\<rparr>"

definition edge_collision :: "'a abs_graph_scheme \<Rightarrow> bool" where
  "edge_collision g = edge_collision_m g"

subsection \<open>class AbsGrid : public AbsGraph\<close>

record abs_grid = abs_graph +
  weights_m :: "double list"
  pause_action_cost_type_m :: c_int

definition size_grid :: "'a abs_grid_scheme \<Rightarrow> nat" where
  "size_grid g = length (weights_m g)"



definition get_weight :: "'a abs_grid_scheme \<Rightarrow> c_int \<Rightarrow> error + double" where
  "get_weight g node = vector_at (weights_m g) (scast node)"

definition get_weights :: "'a abs_grid_scheme \<Rightarrow> double list" where
  "get_weights g = weights_m g"

definition has_obstacle :: "'a abs_grid_scheme \<Rightarrow> c_int \<Rightarrow> error + bool" where
  "has_obstacle g node =
     (case get_weight g node of
        Inl e \<Rightarrow> Inl e
      | Inr w \<Rightarrow> Inr (double_eq w (Finite (- 1))))"

definition clear_weights :: "'a abs_grid_scheme \<Rightarrow> 'a abs_grid_scheme" where
  "clear_weights g = g\<lparr>weights_m := map (\<lambda>_. Finite 1) (weights_m g)\<rparr>"

definition get_pause_action_cost_type :: "'a abs_grid_scheme \<Rightarrow> c_int" where
  "get_pause_action_cost_type g = pause_action_cost_type_m g"

definition set_pause_action_cost_type ::
  "'a abs_grid_scheme \<Rightarrow> c_int \<Rightarrow> error option \<times> 'a abs_grid_scheme" where
  "set_pause_action_cost_type g type =
     (if type <s 0 \<or> 1 <s type then (Some Invalid_argument, g)
      else (None, g\<lparr>pause_action_cost_type_m := type\<rparr>))"

text \<open>The overload \<open>get_pause_action_cost(int v)\<close> of AbsGrid.\<close>

definition get_pause_action_cost_at :: "'a abs_grid_scheme \<Rightarrow> c_int \<Rightarrow> error + double" where
  "get_pause_action_cost_at g v =
     (if pause_action_cost_type_m g = 0 then Inr (pause_action_cost_m g)
      else (case vector_index (weights_m g) (scast v) of
              Inl e \<Rightarrow> Inl e
            | Inr w \<Rightarrow> if double_less w (Finite 0) then Inr (Finite 0) else Inr w))"

text \<open>A vertex id is in range when it is one of \<open>0..size()-1\<close>.\<close>

definition valid_node :: "'a abs_grid_scheme \<Rightarrow> c_int \<Rightarrow> bool" where
  "valid_node g node = (0 \<le> sint node \<and> nat (sint node) < size_grid g)"

text \<open>
  Modelled from the spec: the body of \<open>AbsGrid::update_weight\<close> is missing (core.h only
  declares it). The spec: "\<open>update_weight(node, w)\<close> validates \<open>w \<ge> 0\<close> or \<open>w == -1\<close>",
  "out-of-range vertex ids trigger a domain error (invalid argument kind)", and "grid
  mutation APIs validate eagerly".
\<close>

definition update_weight ::
  "'a abs_grid_scheme \<Rightarrow> c_int \<Rightarrow> double \<Rightarrow> error option \<times> 'a abs_grid_scheme" where
  "update_weight g node w =
     (if \<not> (double_ge w (Finite 0) \<or> double_eq w (Finite (- 1))) then (Some Invalid_argument, g)
      else if \<not> valid_node g node then (Some Invalid_argument, g)
      else (None, g\<lparr>weights_m := (weights_m g)[nat (sint node) := w]\<rparr>))"

text \<open>
  Modelled from the spec: the body of \<open>AbsGrid::set_weights\<close> is missing (core.h only
  declares it). The spec: "\<open>set_weights(vec)\<close> validates length equals \<open>N\<close>"; a mismatched
  weight-vector length is a domain error.
\<close>

definition set_weights ::
  "'a abs_grid_scheme \<Rightarrow> double list \<Rightarrow> error option \<times> 'a abs_grid_scheme" where
  "set_weights g weights =
     (if length weights \<noteq> size_grid g then (Some Invalid_argument, g)
      else (None, g\<lparr>weights_m := weights\<rparr>))"

text \<open>\<open>add_obstacle\<close> and \<open>remove_obstacle\<close> of core.h, which call \<open>update_weight\<close>.\<close>

definition add_obstacle :: "'a abs_grid_scheme \<Rightarrow> c_int \<Rightarrow> error option \<times> 'a abs_grid_scheme" where
  "add_obstacle g node = update_weight g node (Finite (- 1))"

definition remove_obstacle :: "'a abs_grid_scheme \<Rightarrow> c_int \<Rightarrow> error option \<times> 'a abs_grid_scheme" where
  "remove_obstacle g node = update_weight g node (Finite 1)"

text \<open>A grid of three cells, the middle one an obstacle, used for the concrete checks.\<close>

definition example_grid :: abs_grid where
  "example_grid =
     \<lparr>min_weight_m = Finite 1, pause_action_cost_m = Finite 2, edge_collision_m = False,
      weights_m = [Finite 5, Finite (- 1), Finite 3], pause_action_cost_type_m = 1\<rparr>"

subsection \<open>class Grid : public AbsGrid, and its \<open>get_neighbors\<close>\<close>

text \<open>
  Modelled from the spec: \<open>get_neighbors\<close> is pure virtual in AbsGraph and AbsGrid, and
  the class Grid that implements it is missing. The spec (sections 3, 4.1, 4.2, 9):
  grids are 2D with row-major indexing \<open>v = y\<cdot>W + x\<close>; borders have two independent wrap
  flags, and when a flag is true coordinates wrap modulo the dimension, otherwise
  out-of-range moves are rejected; the diagonal policy is one of NEVER,
  ONLY_WHEN_NO_OBSTACLE (both adjacent orthogonal cells passable),
  IF_AT_MOST_ONE_OBSTACLE, ALWAYS; neighbour enumeration produces orthogonal neighbours
  first, then diagonals, each skipping impassable targets; the cost of an edge is the
  entry cost of its target \<open>to\<close>, times \<open>diagonal_movement_cost_multiplier\<close> for a
  diagonal move; \<open>get_neighbors(v, reversed=true)\<close> returns the edges into \<open>v\<close>, and for
  undirected graphs the two enumerations are equal; out-of-range vertex ids trigger a
  domain error (invalid argument kind). Vertex ids are the spec's dense non-negative
  integers.
  The spec fixes no order within the four orthogonal and within the four diagonal moves;
  the order of \<open>directions\<close> is a choice of the model. The product of two finite costs is
  taken exactly, as the spec's costs are reals.
\<close>

fun double_times :: "double \<Rightarrow> double \<Rightarrow> double" where
  "double_times (Finite a) (Finite b) = Finite (a * b)"
| "double_times NaN _ = NaN"
| "double_times _ NaN = NaN"
| "double_times (Finite a) PlusInf = (if a = 0 then NaN else if 0 < a then PlusInf else MinusInf)"
| "double_times (Finite a) MinusInf = (if a = 0 then NaN else if 0 < a then MinusInf else PlusInf)"
| "double_times PlusInf (Finite b) = (if b = 0 then NaN else if 0 < b then PlusInf else MinusInf)"
| "double_times MinusInf (Finite b) = (if b = 0 then NaN else if 0 < b then MinusInf else PlusInf)"
| "double_times PlusInf PlusInf = PlusInf"
| "double_times PlusInf MinusInf = MinusInf"
| "double_times MinusInf PlusInf = MinusInf"
| "double_times MinusInf MinusInf = PlusInf"

datatype diagonal_policy = NEVER | ONLY_WHEN_NO_OBSTACLE | IF_AT_MOST_ONE_OBSTACLE | ALWAYS

record grid = abs_grid +
  width :: nat
  height :: nat
  passable_left_right_border :: bool
  passable_up_down_border :: bool
  diagonal_movement :: diagonal_policy
  diagonal_movement_cost_multiplier :: double

definition wrap_coordinate :: "bool \<Rightarrow> nat \<Rightarrow> nat \<Rightarrow> int \<Rightarrow> nat option" where
  "wrap_coordinate passable n x dx =
     (let x' = int x + dx in
      if 0 \<le> x' \<and> x' < int n then Some (nat x')
      else if passable then Some (nat (x' mod int n))
      else None)"

definition move :: "grid \<Rightarrow> nat \<Rightarrow> int \<times> int \<Rightarrow> (nat \<times> nat) option" where
  "move g v d =
     (case wrap_coordinate (passable_left_right_border g) (width g) (v mod width g) (fst d) of
        None \<Rightarrow> None
      | Some x \<Rightarrow>
          (case wrap_coordinate (passable_up_down_border g) (height g) (v div width g) (snd d) of
             None \<Rightarrow> None
           | Some y \<Rightarrow> Some (x, y)))"

definition node_id :: "grid \<Rightarrow> nat \<times> nat \<Rightarrow> nat" where
  "node_id g p = snd p * width g + fst p"

definition is_obstacle :: "grid \<Rightarrow> nat \<Rightarrow> bool" where
  "is_obstacle g v = double_eq (weights_m g ! v) (Finite (- 1))"

definition is_diagonal :: "int \<times> int \<Rightarrow> bool" where
  "is_diagonal d = (fst d \<noteq> 0 \<and> snd d \<noteq> 0)"

text \<open>
  The two orthogonal cells adjacent to a diagonal move from \<open>v\<close> to the cell at \<open>t\<close>:
  the one in the column of \<open>t\<close> and the row of \<open>v\<close>, and the one in the column of \<open>v\<close>
  and the row of \<open>t\<close>. They are the same two cells for the move back from \<open>t\<close> to \<open>v\<close>.
\<close>

definition diagonal_allowed :: "grid \<Rightarrow> nat \<Rightarrow> nat \<times> nat \<Rightarrow> bool" where
  "diagonal_allowed g v t =
     (let side1 = is_obstacle g (node_id g (fst t, v div width g));
          side2 = is_obstacle g (node_id g (v mod width g, snd t))
      in case diagonal_movement g of
           NEVER \<Rightarrow> False
         | ONLY_WHEN_NO_OBSTACLE \<Rightarrow> \<not> side1 \<and> \<not> side2
         | IF_AT_MOST_ONE_OBSTACLE \<Rightarrow> \<not> (side1 \<and> side2)
         | ALWAYS \<Rightarrow> True)"

definition directions :: "(int \<times> int) list" where
  "directions = [(- 1, 0), (1, 0), (0, - 1), (0, 1), (- 1, - 1), (1, - 1), (- 1, 1), (1, 1)]"

definition edge_cost :: "grid \<Rightarrow> nat \<Rightarrow> int \<times> int \<Rightarrow> double" where
  "edge_cost g to d =
     (if is_diagonal d then double_times (weights_m g ! to) (diagonal_movement_cost_multiplier g)
      else weights_m g ! to)"

text \<open>
  Modelled from the spec: the neighbour of \<open>v\<close> in direction \<open>d\<close>, if any (section 4.2).
  The returned cell \<open>u\<close> must be passable, an obstacle is never listed, and the cost is
  the entry cost of \<open>u\<close>.
\<close>

definition neighbor :: "grid \<Rightarrow> nat \<Rightarrow> int \<times> int \<Rightarrow> (nat \<times> double) option" where
  "neighbor g v d =
     (case move g v d of
        None \<Rightarrow> None
      | Some t \<Rightarrow>
          (let u = node_id g t in
           if is_obstacle g u then None
           else if is_diagonal d \<and> \<not> diagonal_allowed g v t then None
           else Some (u, edge_cost g u d)))"

text \<open>
  Modelled from the spec: \<open>Grid::get_neighbors(v, reversed)\<close> (sections 3, 4.1, 4.2):
  the neighbours of \<open>v\<close> in the order of \<open>directions\<close>, or a domain error for an id out
  of range. Every AbsGrid is an undirected graph (\<open>is_directed_graph()\<close> returns false),
  and section 3 makes the reversed enumeration of an undirected graph equal to the
  forward one, so \<open>reversed\<close> does not change what a grid returns. The class Grid is
  missing, so this is the spec's \<open>get_neighbors\<close>, not the code's.
\<close>

definition get_neighbors :: "grid \<Rightarrow> nat \<Rightarrow> bool \<Rightarrow> error + (nat \<times> double) list" where
  "get_neighbors g v reversed =
     (if \<not> v < size_grid g then Inl Invalid_argument
      else Inr (List.map_filter (neighbor g v) directions))"


subsection \<open>The single-agent pathfinders: BFS, Dijkstra, A*\<close>

text \<open>
  Modelled from the spec: \<open>AbsPathFinder::find_path\<close> is pure virtual in core.h, and the
  classes BFS, Dijkstra and AStar that implement it are missing (the sources only declare
  them). The spec (sections 3, 4.1, 4.4, 9): a pathfinder is bound to one graph and reads
  \<open>size\<close>, \<open>get_neighbors\<close> and \<open>estimate_distance\<close> from it; vertices are the ids
  \<open>0..N-1\<close>; an edge is a record \<open>(to, cost)\<close> with a real cost \<open>\<ge> 0\<close>. BFS has a FIFO
  frontier and counts hops; Dijkstra has a min-priority frontier keyed on the tentative
  distance and a closed set, ties broken by vertex id; A* has a min-priority frontier on
  \<open>f = g + h\<close> with \<open>h = estimate_distance(v, goal)\<close> and lazy deletion, skipping popped
  entries whose stored \<open>g\<close> exceeds the current best. g-scores and predecessors are kept
  in maps, and the path is rebuilt from the predecessors. \<open>find_path(start, goal)\<close>
  returns the empty sequence when the frontier is exhausted; out-of-range ids are a domain
  error. The three engines are one loop that differs in how the next entry is chosen,
  when a popped entry is skipped, and when a neighbour is (re)inserted.
\<close>

datatype engine = BFS | Dijkstra | AStar

text \<open>The graph as a pathfinder sees it: the virtual functions of AbsGraph it calls.\<close>

record graph =
  graph_size :: nat
  graph_neighbors :: "nat \<Rightarrow> (nat \<times> real) list"
  graph_estimate_distance :: "nat \<Rightarrow> nat \<Rightarrow> real"

text \<open>An entry of the frontier: priority key, g-score when pushed, vertex.\<close>

type_synonym entry = "real \<times> real \<times> nat"

definition entry_key :: "entry \<Rightarrow> real" where
  "entry_key e = fst e"

definition entry_g :: "entry \<Rightarrow> real" where
  "entry_g e = fst (snd e)"

definition entry_vertex :: "entry \<Rightarrow> nat" where
  "entry_vertex e = snd (snd e)"

record search_state =
  open_list :: "entry list"
  g_score :: "nat \<rightharpoonup> real"
  came_from :: "nat \<rightharpoonup> nat"
  closed_set :: "nat set"
  found :: bool

text \<open>
  The next entry: the oldest one for BFS; for Dijkstra and A* the one with the least
  key, the lower vertex id on equal keys, the older entry when both are equal.
\<close>

definition entry_before :: "entry \<Rightarrow> entry \<Rightarrow> bool" where
  "entry_before a b =
     (entry_key a < entry_key b \<or> (entry_key a = entry_key b \<and> entry_vertex a < entry_vertex b))"

fun min_entry :: "entry \<Rightarrow> entry list \<Rightarrow> entry" where
  "min_entry e [] = e"
| "min_entry e (x # xs) = min_entry (if entry_before x e then x else e) xs"

definition select :: "engine \<Rightarrow> entry list \<Rightarrow> entry" where
  "select eng xs = (case eng of BFS \<Rightarrow> hd xs | Dijkstra \<Rightarrow> min_entry (hd xs) (tl xs)
      | AStar \<Rightarrow> min_entry (hd xs) (tl xs))"

text \<open>
  A popped entry is skipped by Dijkstra when its vertex is closed, and by A* when its
  stored \<open>g\<close> exceeds the current best. BFS inserts a vertex once and skips nothing.
\<close>

definition stale :: "engine \<Rightarrow> search_state \<Rightarrow> entry \<Rightarrow> bool" where
  "stale eng s e =
     (case eng of
        BFS \<Rightarrow> False
      | Dijkstra \<Rightarrow> entry_vertex e \<in> closed_set s
      | AStar \<Rightarrow> (case g_score s (entry_vertex e) of None \<Rightarrow> False | Some d \<Rightarrow> d < entry_g e))"

text \<open>
  A neighbour is inserted by BFS when it is unvisited, by A* when it is unvisited or
  reached at a lower \<open>g\<close>, by Dijkstra the same unless it is closed.
\<close>

definition better :: "search_state \<Rightarrow> nat \<Rightarrow> real \<Rightarrow> bool" where
  "better s u g = (case g_score s u of None \<Rightarrow> True | Some d \<Rightarrow> g < d)"

definition improves :: "engine \<Rightarrow> search_state \<Rightarrow> nat \<Rightarrow> real \<Rightarrow> bool" where
  "improves eng s u g =
     (case eng of
        BFS \<Rightarrow> g_score s u = None
      | Dijkstra \<Rightarrow> u \<notin> closed_set s \<and> better s u g
      | AStar \<Rightarrow> better s u g)"

definition step_cost :: "engine \<Rightarrow> real \<Rightarrow> real" where
  "step_cost eng c = (case eng of BFS \<Rightarrow> 1 | Dijkstra \<Rightarrow> c | AStar \<Rightarrow> c)"

definition priority :: "engine \<Rightarrow> graph \<Rightarrow> nat \<Rightarrow> nat \<Rightarrow> real \<Rightarrow> real" where
  "priority eng G goal u g =
     (case eng of BFS \<Rightarrow> g | Dijkstra \<Rightarrow> g | AStar \<Rightarrow> g + graph_estimate_distance G u goal)"

definition relax :: "engine \<Rightarrow> graph \<Rightarrow> nat \<Rightarrow> entry \<Rightarrow> search_state \<Rightarrow> nat \<times> real \<Rightarrow> search_state" where
  "relax eng G goal e s nb =
     (let u = fst nb; g = entry_g e + step_cost eng (snd nb) in
      if improves eng s u g
      then s\<lparr>open_list := open_list s @ [(priority eng G goal u g, g, u)],
             g_score := (g_score s)(u \<mapsto> g),
             came_from := (came_from s)(u \<mapsto> entry_vertex e)\<rparr>
      else s)"

definition expand :: "engine \<Rightarrow> graph \<Rightarrow> nat \<Rightarrow> entry \<Rightarrow> search_state \<Rightarrow> search_state" where
  "expand eng G goal e s = foldl (relax eng G goal e) s (graph_neighbors G (entry_vertex e))"

definition close_vertex :: "engine \<Rightarrow> nat \<Rightarrow> search_state \<Rightarrow> search_state" where
  "close_vertex eng v s =
     (case eng of BFS \<Rightarrow> s | Dijkstra \<Rightarrow> s\<lparr>closed_set := insert v (closed_set s)\<rparr> | AStar \<Rightarrow> s)"

text \<open>One turn of the loop: pop, skip or stop at the goal, else expand.\<close>

definition step :: "engine \<Rightarrow> graph \<Rightarrow> nat \<Rightarrow> search_state \<Rightarrow> search_state" where
  "step eng G goal s =
     (let e = select eng (open_list s);
          s1 = s\<lparr>open_list := remove1 e (open_list s)\<rparr>
      in if stale eng s1 e then s1
         else if entry_vertex e = goal then s1\<lparr>found := True\<rparr>
         else expand eng G goal e (close_vertex eng (entry_vertex e) s1))"

text \<open>
  The loop runs until the goal is popped or the frontier is empty; \<open>None\<close> stands for a
  loop that does not end.
\<close>

partial_function (option) search_loop ::
  "engine \<Rightarrow> graph \<Rightarrow> nat \<Rightarrow> search_state \<Rightarrow> search_state option" where
  "search_loop eng G goal s =
     (if \<not> found s \<and> open_list s \<noteq> [] then search_loop eng G goal (step eng G goal s)
      else Some s)"

declare search_loop.simps [code]

text \<open>The path is read backwards from the goal along the predecessors.\<close>

partial_function (option) reconstruct_path ::
  "(nat \<rightharpoonup> nat) \<Rightarrow> nat \<Rightarrow> nat \<Rightarrow> nat list \<Rightarrow> nat list option" where
  "reconstruct_path cf start v acc =
     (if v = start then Some (start # acc)
      else (case cf v of None \<Rightarrow> None | Some p \<Rightarrow> reconstruct_path cf start p (v # acc)))"

declare reconstruct_path.simps [code]

definition initial_state :: "engine \<Rightarrow> graph \<Rightarrow> nat \<Rightarrow> nat \<Rightarrow> search_state" where
  "initial_state eng G start goal =
     \<lparr>open_list = [(priority eng G goal start 0, 0, start)],
      g_score = [start \<mapsto> 0], came_from = Map.empty, closed_set = {}, found = False\<rparr>"

text \<open>
  Modelled from the spec: \<open>find_path(start, goal)\<close> of a pathfinder bound to \<open>G\<close>
  (section 4.4, common contract; section 6, exit conditions).
\<close>

definition find_path :: "engine \<Rightarrow> graph \<Rightarrow> nat \<Rightarrow> nat \<Rightarrow> (error + nat list) option" where
  "find_path eng G start goal =
     (if \<not> (start < graph_size G \<and> goal < graph_size G) then Some (Inl Invalid_argument)
      else (case search_loop eng G goal (initial_state eng G start goal) of
              None \<Rightarrow> None
            | Some s \<Rightarrow>
                if found s then map_option Inr (reconstruct_path (came_from s) start goal [])
                else Some (Inr [])))"

text \<open>A graph given by its list of edges \<open>(from, to, cost)\<close>, with the heuristic constantly 0.\<close>

definition graph_of_edges :: "nat \<Rightarrow> (nat \<times> nat \<times> real) list \<Rightarrow> graph" where
  "graph_of_edges n es =
     \<lparr>graph_size = n,
      graph_neighbors = (\<lambda>v. map snd (filter (\<lambda>e. fst e = v) es)),
      graph_estimate_distance = (\<lambda>u v. 0)\<rparr>"

text \<open>
  The graph of concrete scenario 3 of the spec, vertices 0 to 3 and edges (0,1,1), (1,2,1),
  (0,2,3), (2,3,1) in both directions, and a fifth vertex 4 without edges.
\<close>

definition scenario_graph :: graph where
  "scenario_graph = graph_of_edges 5
     [(0, 1, 1), (1, 0, 1), (1, 2, 1), (2, 1, 1), (0, 2, 3), (2, 0, 3), (2, 3, 1), (3, 2, 1)]"

subsection \<open>Paths, and the invariants of the search loop\<close>

text \<open>
  \<open>edge G u v\<close>: \<open>get_neighbors(u)\<close> lists \<open>v\<close>. A path from \<open>start\<close> to a vertex exists
  when the vertex is \<open>start\<close> or is listed by a vertex to which a path exists.
\<close>

definition edge :: "graph \<Rightarrow> nat \<Rightarrow> nat \<Rightarrow> bool" where
  "edge G u v = (v \<in> fst ` set (graph_neighbors G u))"

inductive path_exists :: "graph \<Rightarrow> nat \<Rightarrow> nat \<Rightarrow> bool" for G start where
  path_exists_start: "path_exists G start start"
| path_exists_step:
    "path_exists G start u \<Longrightarrow> (v, c) \<in> set (graph_neighbors G u) \<Longrightarrow> path_exists G start v"

text \<open>
  The graph invariants of the spec: neighbours are vertices of the graph, costs are
  non-negative.
\<close>

definition wf_graph :: "graph \<Rightarrow> bool" where
  "wf_graph G =
     (\<forall>u < graph_size G. \<forall>nb \<in> set (graph_neighbors G u). fst nb < graph_size G \<and> 0 \<le> snd nb)"

text \<open>
  \<open>pred_path G cf start u p\<close>: following the predecessors \<open>cf\<close> back from \<open>u\<close> reaches
  \<open>start\<close>, and \<open>p\<close> is the path so found, from \<open>start\<close> to \<open>u\<close>.
\<close>

inductive pred_path :: "graph \<Rightarrow> (nat \<rightharpoonup> nat) \<Rightarrow> nat \<Rightarrow> nat \<Rightarrow> nat list \<Rightarrow> bool"
  for G cf start where
  pred_path_start: "pred_path G cf start start [start]"
| pred_path_step:
    "pred_path G cf start v p \<Longrightarrow> cf u = Some v \<Longrightarrow> u \<noteq> start \<Longrightarrow> edge G v u
     \<Longrightarrow> pred_path G cf start u (p @ [u])"

text \<open>
  The rest of this subsection is used in the proofs only. \<open>simple_walk\<close>: a walk from
  \<open>start\<close> that repeats no vertex, with the cost the engine counts for it. \<open>history\<close>:
  such a walk whose every vertex has, by now, a g-score no higher than the cost of the
  walk up to it. Every g-score ever pushed is the cost of a simple walk, and there are
  finitely many of them: \<open>potential\<close> counts how many lower ones are left, which bounds
  the loop. \<open>search_inv\<close> is the invariant of the loop: frontier entries and predecessor
  chains are sound, and every discovered vertex either still has an entry that will not
  be skipped or is not the goal and has all its neighbours discovered.
\<close>

inductive simple_walk :: "engine \<Rightarrow> graph \<Rightarrow> nat \<Rightarrow> nat list \<Rightarrow> real \<Rightarrow> bool"
  for eng G start where
  simple_walk_start: "simple_walk eng G start [start] 0"
| simple_walk_step:
    "simple_walk eng G start p g \<Longrightarrow> nb \<in> set (graph_neighbors G (last p)) \<Longrightarrow> fst nb \<notin> set p
     \<Longrightarrow> simple_walk eng G start (p @ [fst nb]) (g + step_cost eng (snd nb))"

inductive history :: "engine \<Rightarrow> graph \<Rightarrow> nat \<Rightarrow> (nat \<rightharpoonup> real) \<Rightarrow> nat list \<Rightarrow> real \<Rightarrow> bool"
  for eng G start gs where
  history_start: "gs start = Some d \<Longrightarrow> d \<le> 0 \<Longrightarrow> history eng G start gs [start] 0"
| history_step:
    "history eng G start gs p g \<Longrightarrow> nb \<in> set (graph_neighbors G (last p)) \<Longrightarrow> fst nb \<notin> set p
     \<Longrightarrow> gs (fst nb) = Some d \<Longrightarrow> d \<le> g + step_cost eng (snd nb)
     \<Longrightarrow> history eng G start gs (p @ [fst nb]) (g + step_cost eng (snd nb))"

definition walk_costs :: "engine \<Rightarrow> graph \<Rightarrow> nat \<Rightarrow> real set" where
  "walk_costs eng G start = {g. \<exists>p. simple_walk eng G start p g}"

definition potential :: "engine \<Rightarrow> graph \<Rightarrow> nat \<Rightarrow> (nat \<rightharpoonup> real) \<Rightarrow> nat" where
  "potential eng G start gs =
     (\<Sum>u < graph_size G.
        case gs u of
          None \<Rightarrow> Suc (card (walk_costs eng G start))
        | Some d \<Rightarrow> card {x \<in> walk_costs eng G start. x < d})"

definition chain_ok :: "graph \<Rightarrow> nat \<Rightarrow> (nat \<rightharpoonup> real) \<Rightarrow> (nat \<rightharpoonup> nat) \<Rightarrow> nat \<Rightarrow> bool" where
  "chain_ok G start gs cf u =
     (\<exists>p du. gs u = Some du \<and> pred_path G cf start u p \<and>
        (\<forall>x \<in> set p. \<exists>d. gs x = Some d \<and> d \<le> du))"

definition entry_ok :: "engine \<Rightarrow> graph \<Rightarrow> nat \<Rightarrow> (nat \<rightharpoonup> real) \<Rightarrow> entry \<Rightarrow> bool" where
  "entry_ok eng G start gs e =
     ((\<exists>d. gs (entry_vertex e) = Some d \<and> d \<le> entry_g e) \<and>
      (\<exists>p. history eng G start gs p (entry_g e) \<and> last p = entry_vertex e))"

definition fresh :: "engine \<Rightarrow> search_state \<Rightarrow> nat \<Rightarrow> bool" where
  "fresh eng s u = (\<exists>e \<in> set (open_list s). entry_vertex e = u \<and> \<not> stale eng s e)"

definition settled :: "graph \<Rightarrow> nat \<Rightarrow> search_state \<Rightarrow> nat \<Rightarrow> bool" where
  "settled G goal s u =
     (u \<noteq> goal \<and> (\<forall>nb \<in> set (graph_neighbors G u). g_score s (fst nb) \<noteq> None))"

definition core_inv :: "engine \<Rightarrow> graph \<Rightarrow> nat \<Rightarrow> search_state \<Rightarrow> bool" where
  "core_inv eng G start s =
     ((\<forall>e \<in> set (open_list s). entry_ok eng G start (g_score s) e) \<and>
      (\<forall>u. g_score s u \<noteq> None \<longrightarrow>
         u < graph_size G \<and> chain_ok G start (g_score s) (came_from s) u) \<and>
      g_score s start \<noteq> None \<and>
      (\<forall>u \<in> closed_set s. g_score s u \<noteq> None))"

definition search_inv :: "engine \<Rightarrow> graph \<Rightarrow> nat \<Rightarrow> nat \<Rightarrow> search_state \<Rightarrow> bool" where
  "search_inv eng G start goal s =
     (core_inv eng G start s \<and>
      (found s \<longrightarrow> g_score s goal \<noteq> None) \<and>
      (\<not> found s \<longrightarrow> (\<forall>u. g_score s u \<noteq> None \<longrightarrow> fresh eng s u \<or> settled G goal s u)))"

section \<open>Properties\<close>

subsection \<open>From \<open>int\<close> to \<open>size_t\<close>\<close>

lemma unat_scast: "unat (scast (node::c_int) :: size_t) = nat (sint node mod 2^64)"
proof -
  have "uint (scast node :: size_t) = take_bit 64 (sint node)"
    by (simp only: scast_eq uint_word_of_int_eq) simp
  then show ?thesis
    by (simp only: unat_eq_nat_uint take_bit_eq_mod)
qed

lemma sint_c_int_range: "- 2147483648 \<le> sint (node::c_int) \<and> sint node < 2147483648"
  using sint_ge [of node] sint_lt [of node] by simp

lemma unat_scast_nonneg:
  "0 \<le> sint (node::c_int) \<Longrightarrow> unat (scast node :: size_t) = nat (sint node)"
  using sint_c_int_range [of node] by (simp add: unat_scast)

lemma unat_scast_neg:
  "sint (node::c_int) < 0 \<Longrightarrow> unat (scast node :: size_t) = nat (2^64 + sint node)"
proof -
  assume neg: "sint node < 0"
  have "sint node mod 2^64 = (sint node + 2^64) mod 2^64" by simp
  also have "\<dots> = sint node + 2^64"
    using sint_c_int_range [of node] neg by (intro mod_pos_pos_trivial) simp_all
  finally show ?thesis by (simp add: unat_scast add.commute)
qed

lemma c_int_outside_0_1: "((t::c_int) <s 0 \<or> 1 <s t) = (t \<noteq> 0 \<and> t \<noteq> 1)"
proof -
  have "t = 0 \<longleftrightarrow> sint t = 0" by (simp add: signed_eq_0_iff)
  moreover have "t = 1 \<longleftrightarrow> sint t = 1"
    using word_eq_iff_signed [of t 1, where ?'a = int] by simp
  ultimately show ?thesis
    by (auto simp: word_sless_alt)
qed

subsection \<open>Reading a cell\<close>

lemma get_weight_valid:
  "valid_node g v \<Longrightarrow> get_weight g v = Inr (weights_m g ! nat (sint v))"
  by (simp add: valid_node_def get_weight_def vector_at_def size_grid_def unat_scast_nonneg)

lemma vector_index_valid:
  "valid_node g v \<Longrightarrow> vector_index (weights_m g) (scast v) = Inr (weights_m g ! nat (sint v))"
  by (simp add: valid_node_def vector_index_def size_grid_def unat_scast_nonneg)

lemma get_weight_invalid:
  assumes "size_grid g \<le> vector_max_size" and "\<not> valid_node g v"
  shows "get_weight g v = Inl Out_of_range"
proof (cases "0 \<le> sint v")
  case True
  with assms(2) show ?thesis
    by (simp add: valid_node_def get_weight_def vector_at_def size_grid_def unat_scast_nonneg)
next
  case False
  then have neg: "sint v < 0" by simp
  have "int (length (weights_m g)) \<le> 1152921504606846975"
    using assms(1) by (simp add: size_grid_def vector_max_size_def)
  moreover have "int (unat (scast v :: size_t)) = 18446744073709551616 + sint v"
    using sint_c_int_range [of v] by (simp add: unat_scast_neg [OF neg])
  ultimately have "\<not> int (unat (scast v :: size_t)) < int (length (weights_m g))"
    using sint_c_int_range [of v] by linarith
  then have "\<not> unat (scast v :: size_t) < length (weights_m g)"
    by (simp only: of_nat_less_iff) simp
  then show ?thesis
    by (simp add: get_weight_def vector_at_def)
qed

lemma has_obstacle_valid:
  "valid_node g v \<Longrightarrow> has_obstacle g v = Inr (weights_m g ! nat (sint v) = Finite (- 1))"
  by (auto simp: has_obstacle_def get_weight_valid double_eq_def)

lemma valid_node_example: "valid_node example_grid 1"
  by (simp add: valid_node_def example_grid_def size_grid_def)

subsection \<open>The pause cost of a cell\<close>

text \<open>
  C1. For a grid and an in-range vertex \<open>v\<close>: with pause cost type 0,
  \<open>get_pause_action_cost(v)\<close> is the fixed pause cost \<open>pause_action_cost_\<close>; with type 1
  it is the weight of cell \<open>v\<close>, except that a negative weight gives 0, so an obstacle
  (weight -1) pauses at cost 0.
\<close>

theorem get_pause_action_cost_at_by_type:
  assumes "valid_node g v"
  shows "\<exists>w. get_weight g v = Inr w \<and>
     (pause_action_cost_type_m g = 0 \<longrightarrow>
        get_pause_action_cost_at g v = Inr (pause_action_cost_m g)) \<and>
     (pause_action_cost_type_m g = 1 \<longrightarrow>
        get_pause_action_cost_at g v = Inr (if double_less w (Finite 0) then Finite 0 else w)) \<and>
     (pause_action_cost_type_m g = 1 \<longrightarrow> w = Finite (- 1) \<longrightarrow>
        get_pause_action_cost_at g v = Inr (Finite 0))"
  using assms
  by (simp add: get_weight_valid get_pause_action_cost_at_def vector_index_valid)

theorem get_pause_action_cost_at_by_type_witness:
  "valid_node example_grid 1 \<and> pause_action_cost_type_m example_grid = 1 \<and>
   get_weight example_grid 1 = Inr (Finite (- 1)) \<and>
   get_pause_action_cost_at example_grid 1 = Inr (Finite 0)"
proof -
  have t: "pause_action_cost_type_m example_grid = 1"
    by (simp add: example_grid_def)
  have w: "get_weight example_grid 1 = Inr (Finite (- 1))"
    by (simp add: get_weight_valid [OF valid_node_example]) (simp add: example_grid_def)
  show ?thesis
    using get_pause_action_cost_at_by_type [OF valid_node_example] valid_node_example t w
    by auto
qed

subsection \<open>Ids outside the grid\<close>

text \<open>
  C3 (as amended). For a grid of at most \<open>max_size()\<close> cells and a vertex id \<open>v\<close> outside
  \<open>0..size()-1\<close>, \<open>get_weight(v)\<close> throws, and so does \<open>has_obstacle(v)\<close>; the exception
  is \<open>std::out_of_range\<close>, the one \<open>vector::at\<close> throws, not \<open>std::invalid_argument\<close>.
\<close>

theorem get_weight_outside_throws_out_of_range:
  assumes "size_grid g \<le> vector_max_size" and "\<not> valid_node g v"
  shows "get_weight g v = Inl Out_of_range \<and> has_obstacle g v = Inl Out_of_range"
  using get_weight_invalid [OF assms] by (simp add: has_obstacle_def)

theorem get_weight_outside_throws_out_of_range_witness:
  "size_grid example_grid \<le> vector_max_size \<and> \<not> valid_node example_grid (- 1) \<and>
   get_weight example_grid (- 1) = Inl Out_of_range \<and>
   has_obstacle example_grid (- 1) = Inl Out_of_range"
proof -
  have s: "size_grid example_grid \<le> vector_max_size"
    by (simp add: size_grid_def example_grid_def vector_max_size_def)
  have v: "\<not> valid_node example_grid (- 1)"
    by (simp add: valid_node_def)
  show ?thesis
    using get_weight_outside_throws_out_of_range [OF s v] s v by simp
qed

text \<open>
  The claim as first stated (every query with such an id raises an error of the
  invalid-argument kind) fails: on the grid of three cells, \<open>get_weight(7)\<close> throws
  \<open>std::out_of_range\<close>, and with pause cost type 0, \<open>get_pause_action_cost(7)\<close> throws
  nothing and returns the fixed pause cost.
\<close>

theorem get_weight_invalid_argument_counterexample:
  "\<not> valid_node example_grid 7 \<and> get_weight example_grid 7 = Inl Out_of_range \<and>
   get_weight example_grid 7 \<noteq> Inl Invalid_argument \<and>
   get_pause_action_cost_at (example_grid\<lparr>pause_action_cost_type_m := 0\<rparr>) 7 = Inr (Finite 2)"
  by (simp add: valid_node_def size_grid_def get_weight_def vector_at_def example_grid_def
      get_pause_action_cost_at_def)

subsection \<open>Setting the pause cost\<close>

text \<open>
  C4. For a graph and a cost \<open>c\<close>: \<open>set_pause_action_cost(c)\<close> throws exactly when
  \<open>c < 0\<close>, the exception is \<open>std::invalid_argument\<close>, and the graph, so also its stored
  pause cost, is then unchanged; otherwise the stored cost becomes \<open>c\<close>, which
  \<open>get_pause_action_cost()\<close> returns afterwards.
\<close>

theorem set_pause_action_cost_negative_iff_throws:
  "((\<exists>e. fst (set_pause_action_cost g c) = Some e) \<longleftrightarrow> double_less c (Finite 0)) \<and>
   (double_less c (Finite 0) \<longrightarrow>
      fst (set_pause_action_cost g c) = Some Invalid_argument \<and>
      snd (set_pause_action_cost g c) = g \<and>
      get_pause_action_cost (snd (set_pause_action_cost g c)) = get_pause_action_cost g) \<and>
   (\<not> double_less c (Finite 0) \<longrightarrow>
      fst (set_pause_action_cost g c) = None \<and>
      get_pause_action_cost (snd (set_pause_action_cost g c)) = c)"
  by (simp add: set_pause_action_cost_def get_pause_action_cost_def)

theorem set_pause_action_cost_negative_iff_throws_witness:
  "double_less (Finite (- 3)) (Finite 0) \<and>
   fst (set_pause_action_cost example_grid (Finite (- 3))) = Some Invalid_argument \<and>
   get_pause_action_cost (snd (set_pause_action_cost example_grid (Finite (- 3)))) = Finite 2 \<and>
   \<not> double_less (Finite 4) (Finite 0) \<and>
   fst (set_pause_action_cost example_grid (Finite 4)) = None \<and>
   get_pause_action_cost (snd (set_pause_action_cost example_grid (Finite 4))) = Finite 4"
proof -
  have "get_pause_action_cost example_grid = Finite 2"
    by (simp add: get_pause_action_cost_def example_grid_def)
  then show ?thesis
    using set_pause_action_cost_negative_iff_throws [of example_grid "Finite (- 3)"]
      set_pause_action_cost_negative_iff_throws [of example_grid "Finite 4"]
    by simp
qed

subsection \<open>Setting the pause cost type\<close>

text \<open>
  C5. For a grid and an \<open>int\<close> \<open>t\<close>: \<open>set_pause_action_cost_type(t)\<close> throws exactly when
  \<open>t\<close> is neither 0 nor 1, the exception is \<open>std::invalid_argument\<close>, and the grid, so also
  its stored type, is then unchanged; for \<open>t\<close> in \<open>{0, 1}\<close> the value is stored and
  \<open>get_pause_action_cost_type()\<close> returns it afterwards.
\<close>

theorem set_pause_action_cost_type_validates:
  "((\<exists>e. fst (set_pause_action_cost_type g t) = Some e) \<longleftrightarrow> t \<noteq> 0 \<and> t \<noteq> 1) \<and>
   (t \<noteq> 0 \<and> t \<noteq> 1 \<longrightarrow>
      fst (set_pause_action_cost_type g t) = Some Invalid_argument \<and>
      snd (set_pause_action_cost_type g t) = g \<and>
      get_pause_action_cost_type (snd (set_pause_action_cost_type g t)) =
        get_pause_action_cost_type g) \<and>
   (t = 0 \<or> t = 1 \<longrightarrow>
      fst (set_pause_action_cost_type g t) = None \<and>
      get_pause_action_cost_type (snd (set_pause_action_cost_type g t)) = t)"
proof (cases "t \<noteq> 0 \<and> t \<noteq> 1")
  case True
  then have "t <s 0 \<or> 1 <s t" using c_int_outside_0_1 [of t] by blast
  with True show ?thesis
    by (simp add: set_pause_action_cost_type_def)
next
  case False
  then have "\<not> (t <s 0 \<or> 1 <s t)" using c_int_outside_0_1 [of t] by blast
  with False show ?thesis
    by (simp add: set_pause_action_cost_type_def get_pause_action_cost_type_def)
qed

theorem set_pause_action_cost_type_validates_witness:
  "(2::c_int) \<noteq> 0 \<and> (2::c_int) \<noteq> 1 \<and>
   fst (set_pause_action_cost_type example_grid 2) = Some Invalid_argument \<and>
   get_pause_action_cost_type (snd (set_pause_action_cost_type example_grid 2)) = 1 \<and>
   fst (set_pause_action_cost_type example_grid 0) = None \<and>
   get_pause_action_cost_type (snd (set_pause_action_cost_type example_grid 0)) = 0"
proof -
  have "get_pause_action_cost_type example_grid = 1"
    by (simp add: get_pause_action_cost_type_def example_grid_def)
  then show ?thesis
    using set_pause_action_cost_type_validates [of example_grid 2]
      set_pause_action_cost_type_validates [of example_grid 0]
    by simp
qed

subsection \<open>Obstacles\<close>

lemma valid_node_example_0: "valid_node example_grid 0"
  by (simp add: valid_node_def example_grid_def size_grid_def)

text \<open>
  C6. For a grid and an in-range cell \<open>v\<close>, \<open>has_obstacle(v)\<close> is true exactly when the
  weight stored for \<open>v\<close> is the sentinel -1; a cell of weight \<open>w \<ge> 0\<close> is not an obstacle,
  and \<open>get_weight(v)\<close> gives its entry cost \<open>w\<close>.
\<close>

theorem has_obstacle_iff_sentinel:
  assumes "valid_node g v"
  shows "\<exists>w. get_weight g v = Inr w \<and>
     has_obstacle g v = Inr (w = Finite (- 1)) \<and>
     (double_ge w (Finite 0) \<longrightarrow> has_obstacle g v = Inr False)"
proof -
  let ?w = "weights_m g ! nat (sint v)"
  have "double_ge ?w (Finite 0) \<longrightarrow> ?w \<noteq> Finite (- 1)"
    by (auto simp: double_ge_def double_eq_def)
  then show ?thesis
    using assms by (simp add: get_weight_valid has_obstacle_valid)
qed

theorem has_obstacle_iff_sentinel_witness:
  "valid_node example_grid 1 \<and> has_obstacle example_grid 1 = Inr True \<and>
   valid_node example_grid 0 \<and> get_weight example_grid 0 = Inr (Finite 5) \<and>
   double_ge (Finite 5) (Finite 0) \<and> has_obstacle example_grid 0 = Inr False"
proof -
  have w1: "get_weight example_grid 1 = Inr (Finite (- 1))"
    by (simp add: get_weight_valid [OF valid_node_example]) (simp add: example_grid_def)
  have w0: "get_weight example_grid 0 = Inr (Finite 5)"
    by (simp add: get_weight_valid [OF valid_node_example_0]) (simp add: example_grid_def)
  have ge: "double_ge (Finite 5) (Finite 0)"
    by (simp add: double_ge_def)
  show ?thesis
    using has_obstacle_iff_sentinel [OF valid_node_example]
      has_obstacle_iff_sentinel [OF valid_node_example_0]
      valid_node_example valid_node_example_0 w0 w1 ge
    by auto
qed

subsection \<open>Changing weights\<close>

lemma valid_node_weights_update:
  "length ws = size_grid g \<Longrightarrow> valid_node (g\<lparr>weights_m := ws\<rparr>) v = valid_node g v"
  by (simp add: valid_node_def size_grid_def)

lemma update_weight_valid:
  assumes "valid_node g v" and "double_ge w (Finite 0) \<or> double_eq w (Finite (- 1))"
  shows "update_weight g v w = (None, g\<lparr>weights_m := (weights_m g)[nat (sint v) := w]\<rparr>)"
  using assms by (simp add: update_weight_def)

lemma get_weight_update_weight:
  assumes "valid_node g v" and "double_ge w (Finite 0) \<or> double_eq w (Finite (- 1))"
  shows "get_weight (snd (update_weight g v w)) v = Inr w"
proof -
  let ?g' = "g\<lparr>weights_m := (weights_m g)[nat (sint v) := w]\<rparr>"
  have "valid_node ?g' v"
    using assms(1) by (simp add: valid_node_weights_update size_grid_def)
  then have "get_weight ?g' v = Inr (weights_m ?g' ! nat (sint v))"
    by (rule get_weight_valid)
  also have "\<dots> = Inr w"
    using assms(1) by (simp add: valid_node_def size_grid_def)
  finally show ?thesis
    by (simp add: update_weight_valid [OF assms])
qed

lemma valid_node_update_weight:
  "valid_node (snd (update_weight g v w)) u = valid_node g u"
  by (simp add: update_weight_def valid_node_weights_update size_grid_def)

text \<open>
  C7. \<open>update_weight(node, w)\<close> throws a domain error unless \<open>w \<ge> 0\<close> or \<open>w == -1\<close>, and
  on an in-range node with such a \<open>w\<close> it stores \<open>w\<close>; \<open>set_weights(vec)\<close> throws a
  domain error unless the length of \<open>vec\<close> is \<open>size()\<close>, and then replaces the weights.
\<close>

theorem update_weight_set_weights_validate:
  "(\<not> (double_ge w (Finite 0) \<or> double_eq w (Finite (- 1))) \<longrightarrow>
      update_weight g node w = (Some Invalid_argument, g)) \<and>
   (valid_node g node \<and> (double_ge w (Finite 0) \<or> double_eq w (Finite (- 1))) \<longrightarrow>
      fst (update_weight g node w) = None \<and>
      get_weight (snd (update_weight g node w)) node = Inr w) \<and>
   (length ws \<noteq> size_grid g \<longrightarrow> set_weights g ws = (Some Invalid_argument, g)) \<and>
   (length ws = size_grid g \<longrightarrow>
      fst (set_weights g ws) = None \<and> get_weights (snd (set_weights g ws)) = ws)"
proof -
  have "update_weight g node w = (Some Invalid_argument, g)"
    if "\<not> (double_ge w (Finite 0) \<or> double_eq w (Finite (- 1)))"
    using that by (simp add: update_weight_def)
  moreover have "fst (update_weight g node w) = None \<and>
      get_weight (snd (update_weight g node w)) node = Inr w"
    if "valid_node g node \<and> (double_ge w (Finite 0) \<or> double_eq w (Finite (- 1)))"
    using that get_weight_update_weight [of g node w] update_weight_valid [of g node w]
    by simp
  moreover have "set_weights g ws = (Some Invalid_argument, g)" if "length ws \<noteq> size_grid g"
    using that by (simp add: set_weights_def)
  moreover have "fst (set_weights g ws) = None \<and> get_weights (snd (set_weights g ws)) = ws"
    if "length ws = size_grid g"
    using that by (simp add: set_weights_def get_weights_def)
  ultimately show ?thesis by blast
qed

theorem update_weight_set_weights_validate_witness:
  "\<not> (double_ge (Finite (- 2)) (Finite 0) \<or> double_eq (Finite (- 2)) (Finite (- 1))) \<and>
   update_weight example_grid 1 (Finite (- 2)) = (Some Invalid_argument, example_grid) \<and>
   valid_node example_grid 1 \<and> double_ge (Finite 4) (Finite 0) \<and>
   get_weight (snd (update_weight example_grid 1 (Finite 4))) 1 = Inr (Finite 4) \<and>
   length [Finite 1] \<noteq> size_grid example_grid \<and>
   set_weights example_grid [Finite 1] = (Some Invalid_argument, example_grid) \<and>
   length [Finite 1, Finite 2, Finite 3] = size_grid example_grid \<and>
   get_weights (snd (set_weights example_grid [Finite 1, Finite 2, Finite 3])) =
     [Finite 1, Finite 2, Finite 3]"
proof -
  have a: "\<not> (double_ge (Finite (- 2)) (Finite 0) \<or> double_eq (Finite (- 2)) (Finite (- 1)))"
    by (simp add: double_ge_def double_eq_def)
  have b: "double_ge (Finite 4) (Finite 0)"
    by (simp add: double_ge_def)
  have c: "size_grid example_grid = 3"
    by (simp add: size_grid_def example_grid_def)
  show ?thesis
    using update_weight_set_weights_validate [of "Finite (- 2)" example_grid 1 "[Finite 1]"]
      update_weight_set_weights_validate
        [of "Finite 4" example_grid 1 "[Finite 1, Finite 2, Finite 3]"]
      a b c valid_node_example
    by simp
qed

text \<open>
  C9. For a grid and an in-range cell \<open>v\<close>, \<open>remove_obstacle(v)\<close> sets the weight of \<open>v\<close>
  to the constant 1, whatever weight the cell had before it became an obstacle, and
  \<open>clear_weights()\<close> sets the weight of every cell to 1; after either call the cell is
  not an obstacle and \<open>get_weight\<close> gives 1.
\<close>

theorem remove_obstacle_clear_weights_give_one:
  assumes "valid_node g v"
  shows "fst (remove_obstacle g v) = None \<and>
     get_weight (snd (remove_obstacle g v)) v = Inr (Finite 1) \<and>
     has_obstacle (snd (remove_obstacle g v)) v = Inr False \<and>
     (\<forall>w. fst (update_weight g v w) = None \<longrightarrow>
        get_weight (snd (remove_obstacle (snd (add_obstacle (snd (update_weight g v w)) v)) v)) v
          = Inr (Finite 1)) \<and>
     get_weights (clear_weights g) = replicate (size_grid g) (Finite 1) \<and>
     get_weight (clear_weights g) v = Inr (Finite 1) \<and>
     has_obstacle (clear_weights g) v = Inr False"
proof -
  have one: "double_ge (Finite 1) (Finite 0) \<or> double_eq (Finite 1) (Finite (- 1))"
    by (simp add: double_ge_def)
  have rm: "fst (remove_obstacle g' v) = None \<and>
      get_weight (snd (remove_obstacle g' v)) v = Inr (Finite 1) \<and>
      has_obstacle (snd (remove_obstacle g' v)) v = Inr False"
    if "valid_node g' v" for g' :: "'a abs_grid_scheme"
    using that get_weight_update_weight [OF that one] update_weight_valid [OF that one]
    by (simp add: remove_obstacle_def has_obstacle_def double_eq_def)
  have hist: "get_weight (snd (remove_obstacle (snd (add_obstacle (snd (update_weight g v w)) v)) v)) v
      = Inr (Finite 1)" for w
  proof -
    have "valid_node (snd (add_obstacle (snd (update_weight g v w)) v)) v"
      using assms by (simp add: add_obstacle_def valid_node_update_weight)
    then show ?thesis using rm by blast
  qed
  have cl: "clear_weights g = g\<lparr>weights_m := replicate (size_grid g) (Finite 1)\<rparr>"
    by (simp add: clear_weights_def size_grid_def map_replicate_const)
  have clv: "valid_node (clear_weights g) v"
    using assms by (simp add: cl valid_node_weights_update)
  have clw: "get_weight (clear_weights g) v = Inr (Finite 1)"
    using assms get_weight_valid [OF clv] by (simp add: cl valid_node_def)
  then have "has_obstacle (clear_weights g) v = Inr False"
    by (simp add: has_obstacle_def double_eq_def)
  with rm [OF assms] hist clw show ?thesis
    by (simp add: cl get_weights_def)
qed

theorem remove_obstacle_clear_weights_give_one_witness:
  "valid_node example_grid 1 \<and> has_obstacle example_grid 1 = Inr True \<and>
   get_weight (snd (remove_obstacle example_grid 1)) 1 = Inr (Finite 1) \<and>
   fst (update_weight example_grid 1 (Finite 4)) = None \<and>
   get_weight (snd (remove_obstacle (snd (add_obstacle
      (snd (update_weight example_grid 1 (Finite 4))) 1)) 1)) 1 = Inr (Finite 1) \<and>
   get_weights (clear_weights example_grid) = [Finite 1, Finite 1, Finite 1]"
proof -
  have o: "has_obstacle example_grid 1 = Inr True"
    by (simp add: has_obstacle_valid [OF valid_node_example]) (simp add: example_grid_def)
  have u: "fst (update_weight example_grid 1 (Finite 4)) = None"
    by (simp add: update_weight_def valid_node_example double_ge_def)
  have c: "size_grid example_grid = 3"
    by (simp add: size_grid_def example_grid_def)
  show ?thesis
    using remove_obstacle_clear_weights_give_one [OF valid_node_example] valid_node_example o u c
    by (simp add: numeral_3_eq_3)
qed

text \<open>
  C10. For a grid and an in-range cell \<open>v\<close>: after \<open>add_obstacle(v)\<close>, \<open>has_obstacle(v)\<close>
  is true and \<open>get_weight(v)\<close> is -1; a second \<open>add_obstacle(v)\<close> leaves the weights of
  the grid as they are.
\<close>

theorem add_obstacle_marks_and_is_idempotent:
  assumes "valid_node g v"
  shows "fst (add_obstacle g v) = None \<and>
     has_obstacle (snd (add_obstacle g v)) v = Inr True \<and>
     get_weight (snd (add_obstacle g v)) v = Inr (Finite (- 1)) \<and>
     fst (add_obstacle (snd (add_obstacle g v)) v) = None \<and>
     get_weights (snd (add_obstacle (snd (add_obstacle g v)) v)) =
       get_weights (snd (add_obstacle g v))"
proof -
  have m1: "double_ge (Finite (- 1)) (Finite 0) \<or> double_eq (Finite (- 1)) (Finite (- 1))"
    by (simp add: double_eq_def)
  let ?g' = "snd (add_obstacle g v)"
  have v': "valid_node ?g' v"
    using assms by (simp add: add_obstacle_def valid_node_update_weight)
  have w: "get_weight ?g' v = Inr (Finite (- 1))"
    using get_weight_update_weight [OF assms m1] by (simp add: add_obstacle_def)
  then have o: "has_obstacle ?g' v = Inr True"
    by (simp add: has_obstacle_def double_eq_def)
  have "get_weights (snd (add_obstacle ?g' v)) = get_weights ?g'"
    using update_weight_valid [OF assms m1] update_weight_valid [OF v' [unfolded add_obstacle_def] m1]
    by (simp add: add_obstacle_def get_weights_def)
  with w o update_weight_valid [OF assms m1] update_weight_valid [OF v' m1] show ?thesis
    by (simp add: add_obstacle_def)
qed

theorem add_obstacle_marks_and_is_idempotent_witness:
  "valid_node example_grid 0 \<and> has_obstacle example_grid 0 = Inr False \<and>
   has_obstacle (snd (add_obstacle example_grid 0)) 0 = Inr True \<and>
   get_weight (snd (add_obstacle example_grid 0)) 0 = Inr (Finite (- 1))"
proof -
  have o: "has_obstacle example_grid 0 = Inr False"
    by (simp add: has_obstacle_valid [OF valid_node_example_0]) (simp add: example_grid_def)
  show ?thesis
    using add_obstacle_marks_and_is_idempotent [OF valid_node_example_0] valid_node_example_0 o
    by simp
qed

subsection \<open>Neighbours of a grid cell, forwards and reversed\<close>

lemma wrap_coordinate_less:
  "0 < n \<Longrightarrow> wrap_coordinate passable n x dx = Some x' \<Longrightarrow> x' < n"
  by (auto simp: wrap_coordinate_def Let_def nat_less_iff split: if_splits)

lemma move_in_range:
  assumes "size_grid g = width g * height g" and "v < size_grid g" and "move g v d = Some t"
  shows "node_id g t < size_grid g"
proof -
  from assms(1,2) have pos: "0 < width g" "0 < height g"
    by (cases "width g"; cases "height g"; simp)+
  from assms(3) have "fst t < width g" and "snd t < height g"
    using wrap_coordinate_less [OF pos(1)] wrap_coordinate_less [OF pos(2)]
    by (auto simp: move_def split: option.splits)
  then have "snd t * width g + fst t < Suc (snd t) * width g" and "Suc (snd t) \<le> height g"
    by simp_all
  then have "snd t * width g + fst t < height g * width g"
    by (meson less_le_trans mult_le_mono1)
  then show ?thesis
    by (simp add: node_id_def assms(1) mult.commute)
qed


text \<open>Every cell that \<open>get_neighbors\<close> lists is a cell of the grid and not an obstacle.\<close>

lemma get_neighbors_in_range_passable:
  assumes wf: "size_grid g = width g * height g" and v: "v < size_grid g"
    and ns: "get_neighbors g v reversed = Inr ns" and u: "(u, c) \<in> set ns"
  shows "u < size_grid g \<and> \<not> is_obstacle g u"
proof -
  from ns v have "ns = List.map_filter (neighbor g v) directions"
    by (simp add: get_neighbors_def)
  with u obtain d where d: "neighbor g v d = Some (u, c)"
    by (auto simp: List.map_filter_def)
  then obtain t where t: "move g v d = Some t"
    by (auto simp: neighbor_def split: option.splits)
  with d have "u = node_id g t" and "\<not> is_obstacle g u"
    by (auto simp: neighbor_def Let_def split: if_splits)
  with move_in_range [OF wf v t] show ?thesis by simp
qed



subsection \<open>The pathfinders return a path exactly when one exists\<close>

lemma min_entry_in: "min_entry e xs \<in> set (e # xs)"
  by (induction xs arbitrary: e) auto

lemma select_in: "xs \<noteq> [] \<Longrightarrow> select eng xs \<in> set xs"
  using min_entry_in [of "hd xs" "tl xs"] by (cases eng) (auto simp: select_def)

lemma pred_path_ends:
  "pred_path G cf start u p \<Longrightarrow> p \<noteq> [] \<and> hd p = start \<and> last p = u"
  by (induction rule: pred_path.induct) auto

lemma pred_path_start_in: "pred_path G cf start u p \<Longrightarrow> start \<in> set p"
  using pred_path_ends [of G cf start u p] hd_in_set by fastforce

lemma pred_path_successively: "pred_path G cf start u p \<Longrightarrow> successively (edge G) p"
proof (induction rule: pred_path.induct)
  case pred_path_start
  show ?case by simp
next
  case (pred_path_step v p u)
  then show ?case
    using pred_path_ends [of G cf start v p]
    by (simp add: successively_append_iff)
qed

lemma pred_path_at_start: "pred_path G cf start start p \<Longrightarrow> p = [start]"
  by (cases rule: pred_path.cases) auto

lemma pred_path_update:
  "pred_path G cf start u p \<Longrightarrow> w \<notin> set p \<Longrightarrow> pred_path G (cf(w \<mapsto> v)) start u p"
proof (induction rule: pred_path.induct)
  case pred_path_start
  show ?case by (rule pred_path.pred_path_start)
next
  case (pred_path_step v' p u)
  then show ?case
    by (auto intro!: pred_path.pred_path_step)
qed

lemma reconstruct_path_pred_path:
  "pred_path G cf start u p \<Longrightarrow> reconstruct_path cf start u acc = Some (p @ acc)"
proof (induction arbitrary: acc rule: pred_path.induct)
  case pred_path_start
  show ?case by (simp add: reconstruct_path.simps)
next
  case (pred_path_step v p u)
  then show ?case
    by (subst reconstruct_path.simps) simp
qed

lemma path_exists_edge: "path_exists G start u \<Longrightarrow> edge G u v \<Longrightarrow> path_exists G start v"
  by (auto simp: edge_def dest: path_exists_step)

lemma pred_path_path_exists: "pred_path G cf start u p \<Longrightarrow> path_exists G start u"
  by (induction rule: pred_path.induct) (auto intro: path_exists_start path_exists_edge)

lemma step_cost_nonneg: "0 \<le> c \<Longrightarrow> 0 \<le> step_cost eng c"
  by (cases eng) (simp_all add: step_cost_def)

lemma history_simple_walk: "history eng G start gs p g \<Longrightarrow> simple_walk eng G start p g"
  by (induction rule: history.induct) (auto intro: simple_walk.intros)

lemma history_mono:
  assumes "history eng G start gs p g"
    and "\<And>x d. gs x = Some d \<Longrightarrow> \<exists>d'. gs' x = Some d' \<and> d' \<le> d"
  shows "history eng G start gs' p g"
  using assms(1)
proof (induction rule: history.induct)
  case (history_start d)
  then show ?case
    using assms(2) [of start d] by (auto intro: history.history_start)
next
  case (history_step p g nb d)
  from assms(2) [OF history_step.hyps(4)] obtain d' where "gs' (fst nb) = Some d'" "d' \<le> d"
    by blast
  with history_step show ?case
    by (auto intro!: history.history_step)
qed

lemma history_bounds:
  assumes "wf_graph G" and "start < graph_size G" and "history eng G start gs p g"
  shows "p \<noteq> [] \<and> (\<forall>x \<in> set p. x < graph_size G \<and> (\<exists>d. gs x = Some d \<and> d \<le> g))"
  using assms(3)
proof (induction rule: history.induct)
  case (history_start d)
  then show ?case using assms(2) by simp
next
  case (history_step p g nb d)
  then have "last p < graph_size G" by simp
  with assms(1) history_step.hyps(2) have nb: "fst nb < graph_size G" "0 \<le> snd nb"
    by (auto simp: wf_graph_def)
  then have "g \<le> g + step_cost eng (snd nb)"
    using step_cost_nonneg [of "snd nb" eng] by simp
  with history_step nb show ?case
    by fastforce
qed

lemma simple_walk_bounds:
  assumes "wf_graph G" and "start < graph_size G" and "simple_walk eng G start p g"
  shows "p \<noteq> [] \<and> distinct p \<and> (\<forall>x \<in> set p. x < graph_size G)"
  using assms(3)
proof (induction rule: simple_walk.induct)
  case simple_walk_start
  then show ?case using assms(2) by simp
next
  case (simple_walk_step p g nb)
  then have "last p < graph_size G" by simp
  with assms(1) simple_walk_step.hyps(2) have "fst nb < graph_size G"
    by (auto simp: wf_graph_def)
  with simple_walk_step show ?case by auto
qed

lemma simple_walk_length:
  assumes "wf_graph G" and "start < graph_size G" and "simple_walk eng G start p g"
  shows "length p \<le> graph_size G"
proof -
  from simple_walk_bounds [OF assms] have "distinct p" and "set p \<subseteq> {..<graph_size G}"
    by auto
  then have "card (set p) \<le> card {..<graph_size G}"
    by (intro card_mono) auto
  with \<open>distinct p\<close> show ?thesis
    by (simp add: distinct_card)
qed

lemma finite_walks_of_length:
  assumes "wf_graph G" and "start < graph_size G"
  shows "finite {(p, g). simple_walk eng G start p g \<and> length p = n}"
proof (induction n)
  case 0
  have ne: "simple_walk eng G start p g \<Longrightarrow> p \<noteq> []" for p g
    using simple_walk_bounds [OF assms] by blast
  have "{(p, g). simple_walk eng G start p g \<and> length p = 0} \<subseteq> {}"
    by (auto dest: ne)
  then show ?case by (rule finite_subset) simp
next
  case (Suc n)
  let ?W = "{(p, g). simple_walk eng G start p g \<and> length p = n}"
  let ?E = "\<Union>u \<in> {..<graph_size G}. set (graph_neighbors G u)"
  let ?ext = "\<lambda>(pg, nb). (fst pg @ [fst nb], snd pg + step_cost eng (snd nb))"
  have ext: "(p, g) = ([start], 0) \<or> (p, g) \<in> ?ext ` (?W \<times> ?E)"
    if w: "simple_walk eng G start p g" and l: "length p = Suc n" for p g
    using w
  proof (cases rule: simple_walk.cases)
    case simple_walk_start
    then show ?thesis by simp
  next
    case (simple_walk_step q h nb)
    then have "length q = n" using l by simp
    moreover have "last q < graph_size G"
      using simple_walk_bounds [OF assms simple_walk_step(3)] by simp
    ultimately have "((q, h), nb) \<in> ?W \<times> ?E"
      using simple_walk_step by auto
    then have "?ext ((q, h), nb) \<in> ?ext ` (?W \<times> ?E)"
      by (rule imageI)
    with simple_walk_step show ?thesis by simp
  qed
  have "{(p, g). simple_walk eng G start p g \<and> length p = Suc n}
      \<subseteq> insert ([start], 0) (?ext ` (?W \<times> ?E))"
    using ext by blast
  moreover have "finite (insert ([start], 0) (?ext ` (?W \<times> ?E)))"
    using Suc by simp
  ultimately show ?case
    by (rule finite_subset)
qed

lemma finite_walk_costs:
  assumes "wf_graph G" and "start < graph_size G"
  shows "finite (walk_costs eng G start)"
proof -
  let ?W = "\<lambda>n. {(p, g). simple_walk eng G start p g \<and> length p = n}"
  have "walk_costs eng G start \<subseteq> snd ` (\<Union>n \<in> {..graph_size G}. ?W n)"
    using simple_walk_length [OF assms] by (force simp: walk_costs_def)
  moreover have "finite (snd ` (\<Union>n \<in> {..graph_size G}. ?W n))"
    using finite_walks_of_length [OF assms] by simp
  ultimately show ?thesis
    by (rule finite_subset)
qed

lemma potential_decrease:
  assumes fin: "finite (walk_costs eng G start)" and w: "w < graph_size G"
    and g: "g \<in> walk_costs eng G start"
    and better: "case gs w of None \<Rightarrow> True | Some d \<Rightarrow> g < d"
  shows "potential eng G start (gs(w \<mapsto> g)) < potential eng G start gs"
proof -
  let ?C = "walk_costs eng G start"
  let ?f = "\<lambda>gs u. case gs u of None \<Rightarrow> Suc (card ?C) | Some d \<Rightarrow> card {x \<in> ?C. x < d}"
  have lt: "?f (gs(w \<mapsto> g)) w < ?f gs w"
  proof (cases "gs w")
    case None
    have "card {x \<in> ?C. x < g} \<le> card ?C"
      using fin by (intro card_mono) auto
    with None show ?thesis by simp
  next
    case (Some d)
    with better have "g < d" by simp
    then have "{x \<in> ?C. x < g} \<subset> {x \<in> ?C. x < d}"
      using g by auto
    then have "card {x \<in> ?C. x < g} < card {x \<in> ?C. x < d}"
      using fin by (intro psubset_card_mono) auto
    with Some show ?thesis by simp
  qed
  have "(\<Sum>u < graph_size G. ?f (gs(w \<mapsto> g)) u) < (\<Sum>u < graph_size G. ?f gs u)"
  proof (rule sum_strict_mono_ex1)
    show "finite {..<graph_size G}" by simp
    show "\<forall>u \<in> {..<graph_size G}. ?f (gs(w \<mapsto> g)) u \<le> ?f gs u"
      using lt by auto
    show "\<exists>u \<in> {..<graph_size G}. ?f (gs(w \<mapsto> g)) u < ?f gs u"
      using lt w by blast
  qed
  then show ?thesis
    by (simp add: potential_def)
qed

lemma chain_ok_update:
  assumes all: "\<And>u. gs u \<noteq> None \<Longrightarrow> chain_ok G start gs cf u"
    and v: "gs v = Some dv" "dv \<le> g"
    and e: "edge G v w"
    and b: "case gs w of None \<Rightarrow> True | Some d \<Rightarrow> g < d"
    and u: "(gs(w \<mapsto> g)) u \<noteq> None"
  shows "chain_ok G start (gs(w \<mapsto> g)) (cf(w \<mapsto> v)) u"
proof -
  let ?gs = "gs(w \<mapsto> g)" and ?cf = "cf(w \<mapsto> v)"
  from all [of v] v obtain pv where pv: "pred_path G cf start v pv"
    and bv: "\<forall>x \<in> set pv. \<exists>d. gs x = Some d \<and> d \<le> dv"
    by (auto simp: chain_ok_def)
  have w_notin: "w \<notin> set pv"
  proof
    assume "w \<in> set pv"
    with bv obtain d where "gs w = Some d" "d \<le> dv" by blast
    with b v show False by simp
  qed
  have w_start: "w \<noteq> start"
    using pred_path_start_in [OF pv] w_notin by blast
  have pw: "pred_path G ?cf start w (pv @ [w])"
    using pred_path_update [OF pv w_notin, of v] w_start e
    by (intro pred_path_step) simp_all
  have bw: "\<exists>d. ?gs x = Some d \<and> d \<le> g" if "x \<in> set (pv @ [w])" for x
  proof (cases "x = w")
    case True
    then show ?thesis by simp
  next
    case False
    with that bv obtain d where "gs x = Some d" "d \<le> dv" by auto
    with False v show ?thesis by simp
  qed
  have key: "\<exists>p'. pred_path G ?cf start x p' \<and> (\<forall>y \<in> set p'. \<exists>d. ?gs y = Some d \<and> d \<le> bound)"
    if "pred_path G cf start x p" and "\<forall>y \<in> set p. \<exists>d. gs y = Some d \<and> d \<le> bound"
    for x p bound
    using that
  proof (induction rule: pred_path.induct)
    case pred_path_start
    then have "\<exists>d. ?gs start = Some d \<and> d \<le> bound"
      using w_start by simp
    then have "\<forall>y \<in> set [start]. \<exists>d. ?gs y = Some d \<and> d \<le> bound"
      by simp
    then show ?case
      using pred_path.pred_path_start [of G ?cf start] by blast
  next
    case (pred_path_step v' p u)
    show ?case
    proof (cases "u = w")
      case True
      from pred_path_step.prems True obtain d where "gs w = Some d" "d \<le> bound"
        by auto
      with b have "g \<le> bound" by simp
      with bw have "\<forall>y \<in> set (pv @ [w]). \<exists>d. ?gs y = Some d \<and> d \<le> bound"
        by (meson order_trans)
      with pw True show ?thesis by blast
    next
      case False
      have "\<forall>y \<in> set p. \<exists>d. gs y = Some d \<and> d \<le> bound"
        using pred_path_step.prems by simp
      from pred_path_step.IH [OF this] obtain p'
        where p': "pred_path G ?cf start v' p'"
          and b': "\<forall>y \<in> set p'. \<exists>d. ?gs y = Some d \<and> d \<le> bound"
        by blast
      have "?cf u = Some v'"
        using False pred_path_step.hyps by simp
      with p' pred_path_step.hyps have pu: "pred_path G ?cf start u (p' @ [u])"
        by (intro pred_path.pred_path_step)
      have "\<exists>d. ?gs u = Some d \<and> d \<le> bound"
        using False pred_path_step.prems by simp
      with b' have "\<forall>y \<in> set (p' @ [u]). \<exists>d. ?gs y = Some d \<and> d \<le> bound"
        by (auto simp del: fun_upd_apply)
      with pu show ?thesis by blast
    qed
  qed
  show ?thesis
  proof (cases "u = w")
    case True
    with pw bw show ?thesis
      unfolding chain_ok_def by (intro exI [of _ "pv @ [w]"] exI [of _ g]) simp
  next
    case False
    with u have "gs u \<noteq> None" by simp
    from all [OF this] obtain p du where du: "gs u = Some du"
      and p: "pred_path G cf start u p"
      and bp: "\<forall>x \<in> set p. \<exists>d. gs x = Some d \<and> d \<le> du"
      by (auto simp: chain_ok_def)
    from key [OF p bp] obtain p' where "pred_path G ?cf start u p'"
      and "\<forall>y \<in> set p'. \<exists>d. ?gs y = Some d \<and> d \<le> du"
      by blast
    with du False show ?thesis
      unfolding chain_ok_def by (intro exI [of _ p'] exI [of _ du]) simp
  qed
qed

lemma update_mono:
  fixes gs :: "nat \<rightharpoonup> real"
  assumes "case gs w of None \<Rightarrow> True | Some d \<Rightarrow> g < d" and "gs x = Some d"
  shows "\<exists>d'. (gs(w \<mapsto> g)) x = Some d' \<and> d' \<le> d"
  using assms by (cases "x = w") auto

lemma entry_ok_update:
  assumes "entry_ok eng G start gs e" and b: "case gs w of None \<Rightarrow> True | Some d \<Rightarrow> g < d"
  shows "entry_ok eng G start (gs(w \<mapsto> g)) e"
proof -
  from assms(1) obtain d p where d: "gs (entry_vertex e) = Some d" "d \<le> entry_g e"
    and p: "history eng G start gs p (entry_g e)" "last p = entry_vertex e"
    by (auto simp: entry_ok_def)
  from update_mono [where gs = gs and w = w and g = g, OF b d(1)] d(2)
  have "\<exists>d'. (gs(w \<mapsto> g)) (entry_vertex e) = Some d' \<and> d' \<le> entry_g e"
    by force
  moreover have "history eng G start (gs(w \<mapsto> g)) p (entry_g e)"
    using p(1) update_mono [where gs = gs and w = w and g = g, OF b] by (rule history_mono)
  ultimately show ?thesis
    using p(2) unfolding entry_ok_def by blast
qed

lemma entry_ok_new:
  assumes wf: "wf_graph G" and st: "start < graph_size G"
    and eok: "entry_ok eng G start gs e"
    and nb: "nb \<in> set (graph_neighbors G (entry_vertex e))"
    and b: "case gs (fst nb) of None \<Rightarrow> True | Some d \<Rightarrow> entry_g e + step_cost eng (snd nb) < d"
  shows "entry_ok eng G start (gs(fst nb \<mapsto> entry_g e + step_cost eng (snd nb)))
           (k, entry_g e + step_cost eng (snd nb), fst nb) \<and>
         entry_g e + step_cost eng (snd nb) \<in> walk_costs eng G start \<and>
         fst nb < graph_size G \<and> entry_g e \<le> entry_g e + step_cost eng (snd nb)"
proof -
  let ?g = "entry_g e + step_cost eng (snd nb)" and ?w = "fst nb"
  let ?gs = "gs(?w \<mapsto> ?g)"
  from eok obtain p where p: "history eng G start gs p (entry_g e)" and l: "last p = entry_vertex e"
    by (auto simp: entry_ok_def)
  note bnd = history_bounds [OF wf st p]
  then have "entry_vertex e < graph_size G"
    using l last_in_set by fastforce
  with wf nb have w: "?w < graph_size G" and c: "0 \<le> snd nb"
    by (auto simp: wf_graph_def)
  then have le: "entry_g e \<le> ?g"
    using step_cost_nonneg [of "snd nb" eng] by simp
  have notin: "?w \<notin> set p"
  proof
    assume "?w \<in> set p"
    with bnd obtain d where "gs ?w = Some d" "d \<le> entry_g e" by blast
    with b le show False by simp
  qed
  have "history eng G start ?gs p (entry_g e)"
    using p update_mono [where gs = gs and w = ?w and g = ?g, OF b] by (rule history_mono)
  then have h: "history eng G start ?gs (p @ [?w]) ?g"
    using nb l notin by (intro history.history_step [where d = ?g]) simp_all
  then have "?g \<in> walk_costs eng G start"
    using history_simple_walk unfolding walk_costs_def by blast
  with h w le show ?thesis
    by (auto simp: entry_ok_def entry_g_def entry_vertex_def)
qed

lemma improves_better:
  "improves eng s u g \<Longrightarrow> case g_score s u of None \<Rightarrow> True | Some d \<Rightarrow> g < d"
  by (cases eng) (simp_all add: improves_def better_def)

lemma not_improves_known:
  "\<not> improves eng s u g \<Longrightarrow> \<forall>x \<in> closed_set s. g_score s x \<noteq> None \<Longrightarrow> g_score s u \<noteq> None"
  by (cases eng) (auto simp: improves_def better_def split: option.splits)

lemma stale_cong:
  "closed_set s' = closed_set s \<Longrightarrow> g_score s' (entry_vertex e) = g_score s (entry_vertex e)
   \<Longrightarrow> stale eng s' e = stale eng s e"
  by (cases eng) (simp_all add: stale_def)

lemma new_entry_not_stale:
  assumes "improves eng s u g" and "closed_set s' = closed_set s" and "g_score s' u = Some g"
  shows "\<not> stale eng s' (k, g, u)"
  using assms by (cases eng) (simp_all add: stale_def improves_def entry_vertex_def entry_g_def)

lemma relax_step:
  fixes goal :: nat
  assumes wf: "wf_graph G" and st: "start < graph_size G"
    and core: "core_inv eng G start s"
    and eok: "entry_ok eng G start (g_score s) e"
    and nb: "nb \<in> set (graph_neighbors G (entry_vertex e))"
  defines "t \<equiv> relax eng G goal e s nb"
  shows "core_inv eng G start t \<and> entry_ok eng G start (g_score t) e \<and>
     g_score t (fst nb) \<noteq> None \<and>
     (\<forall>u. g_score s u \<noteq> None \<longrightarrow> g_score t u \<noteq> None) \<and>
     closed_set t = closed_set s \<and> found t = found s \<and>
     (\<forall>u. fresh eng s u \<longrightarrow> fresh eng t u) \<and>
     (\<forall>u. g_score t u \<noteq> None \<longrightarrow> g_score s u = None \<longrightarrow> fresh eng t u) \<and>
     (potential eng G start (g_score t) < potential eng G start (g_score s) \<or> t = s)"
proof (cases "improves eng s (fst nb) (entry_g e + step_cost eng (snd nb))")
  case False
  then have "t = s"
    by (simp add: t_def relax_def Let_def)
  moreover have "g_score s (fst nb) \<noteq> None"
    using not_improves_known [OF False] core by (simp add: core_inv_def)
  ultimately show ?thesis
    using core eok by auto
next
  case True
  let ?w = "fst nb" and ?g = "entry_g e + step_cost eng (snd nb)"
  let ?new = "(priority eng G goal ?w ?g, ?g, ?w)"
  let ?gs = "(g_score s)(?w \<mapsto> ?g)" and ?cf = "(came_from s)(?w \<mapsto> entry_vertex e)"
  have t: "t = s\<lparr>open_list := open_list s @ [?new], g_score := ?gs, came_from := ?cf\<rparr>"
    using True by (simp add: t_def relax_def Let_def)
  then have sel: "open_list t = open_list s @ [?new]" "g_score t = ?gs" "came_from t = ?cf"
    "closed_set t = closed_set s" "found t = found s"
    by simp_all
  note b = improves_better [OF True]
  from entry_ok_new [OF wf st eok nb b, of "priority eng G goal ?w ?g"]
  have new_ok: "entry_ok eng G start ?gs ?new" and gC: "?g \<in> walk_costs eng G start"
    and wN: "?w < graph_size G" and le: "entry_g e \<le> ?g"
    by simp_all
  from eok obtain dv where dv: "g_score s (entry_vertex e) = Some dv" "dv \<le> entry_g e"
    by (auto simp: entry_ok_def)
  have edge: "edge G (entry_vertex e) ?w"
    using nb by (simp add: edge_def)
  have chains: "chain_ok G start ?gs ?cf u" if "?gs u \<noteq> None" for u
  proof (rule chain_ok_update [where dv = dv])
    show "chain_ok G start (g_score s) (came_from s) x" if "g_score s x \<noteq> None" for x
      using core that by (simp add: core_inv_def)
    show "g_score s (entry_vertex e) = Some dv" by (rule dv)
    show "dv \<le> ?g" using dv le by simp
    show "edge G (entry_vertex e) ?w" by (rule edge)
    show "case g_score s ?w of None \<Rightarrow> True | Some d \<Rightarrow> ?g < d" by (rule b)
    show "?gs u \<noteq> None" by (rule that)
  qed
  have in_range: "u < graph_size G" if "?gs u \<noteq> None" for u
    using that wN core by (cases "u = ?w") (simp_all add: core_inv_def)
  have entries: "entry_ok eng G start ?gs e'" if "e' \<in> set (open_list s @ [?new])" for e'
  proof (cases "e' = ?new")
    case True
    with new_ok show ?thesis by simp
  next
    case False
    with that have "entry_ok eng G start (g_score s) e'"
      using core by (simp add: core_inv_def)
    then show ?thesis using b by (rule entry_ok_update)
  qed
  have "g_score s start \<noteq> None" and "\<forall>u \<in> closed_set s. g_score s u \<noteq> None"
    using core by (simp_all add: core_inv_def)
  then have core': "core_inv eng G start t"
    unfolding core_inv_def sel using entries chains in_range by auto
  have eok': "entry_ok eng G start (g_score t) e"
    unfolding sel using eok b by (rule entry_ok_update)
  have new_fresh: "fresh eng t ?w"
  proof -
    have "\<not> stale eng t ?new"
      using True sel(4) by (rule new_entry_not_stale) (simp add: sel)
    moreover have "?new \<in> set (open_list t)" "entry_vertex ?new = ?w"
      by (simp_all add: sel entry_vertex_def)
    ultimately show ?thesis
      unfolding fresh_def by blast
  qed
  have keep: "fresh eng t u" if "fresh eng s u" for u
  proof (cases "u = ?w")
    case True
    with new_fresh show ?thesis by simp
  next
    case False
    from that obtain e' where e': "e' \<in> set (open_list s)" "entry_vertex e' = u" "\<not> stale eng s e'"
      by (auto simp: fresh_def)
    have "stale eng t e' = stale eng s e'"
      using sel(4) by (rule stale_cong) (simp add: sel e' False)
    with e' show ?thesis
      unfolding fresh_def sel by auto
  qed
  have newly: "fresh eng t u" if "g_score t u \<noteq> None" and "g_score s u = None" for u
  proof -
    from that have "u = ?w"
      by (cases "u = ?w") (simp_all add: sel)
    with new_fresh show ?thesis by simp
  qed
  have "potential eng G start (g_score t) < potential eng G start (g_score s)"
    unfolding sel using finite_walk_costs [OF wf st] wN gC b by (rule potential_decrease)
  with core' eok' keep newly show ?thesis
    by (simp add: sel)
qed

lemma settled_mono:
  "settled G goal s u \<Longrightarrow> (\<And>x. g_score s x \<noteq> None \<Longrightarrow> g_score t x \<noteq> None)
   \<Longrightarrow> settled G goal t u"
  by (simp add: settled_def)

lemma expand_fold:
  fixes goal :: nat
  assumes wf: "wf_graph G" and st: "start < graph_size G"
  shows "core_inv eng G start s \<Longrightarrow> entry_ok eng G start (g_score s) e
    \<Longrightarrow> set nbs \<subseteq> set (graph_neighbors G (entry_vertex e))
    \<Longrightarrow> (\<forall>u. g_score s u \<noteq> None \<longrightarrow> u \<noteq> v \<longrightarrow> fresh eng s u \<or> settled G goal s u)
    \<Longrightarrow> core_inv eng G start (foldl (relax eng G goal e) s nbs) \<and>
        (\<forall>nb \<in> set nbs. g_score (foldl (relax eng G goal e) s nbs) (fst nb) \<noteq> None) \<and>
        (\<forall>u. g_score s u \<noteq> None \<longrightarrow> g_score (foldl (relax eng G goal e) s nbs) u \<noteq> None) \<and>
        closed_set (foldl (relax eng G goal e) s nbs) = closed_set s \<and>
        found (foldl (relax eng G goal e) s nbs) = found s \<and>
        (\<forall>u. g_score (foldl (relax eng G goal e) s nbs) u \<noteq> None \<longrightarrow> u \<noteq> v \<longrightarrow>
           fresh eng (foldl (relax eng G goal e) s nbs) u \<or>
           settled G goal (foldl (relax eng G goal e) s nbs) u) \<and>
        (potential eng G start (g_score (foldl (relax eng G goal e) s nbs))
           < potential eng G start (g_score s) \<or>
         foldl (relax eng G goal e) s nbs = s)"
proof (induction nbs arbitrary: s)
  case Nil
  then show ?case by simp
next
  case (Cons nb nbs)
  define s1 where "s1 = relax eng G goal e s nb"
  define t where "t = foldl (relax eng G goal e) s1 nbs"
  have nb: "nb \<in> set (graph_neighbors G (entry_vertex e))"
    and nbs: "set nbs \<subseteq> set (graph_neighbors G (entry_vertex e))"
    using Cons.prems(3) by simp_all
  note r = relax_step [OF wf st Cons.prems(1) Cons.prems(2) nb, of goal, folded s1_def]
  have r_core: "core_inv eng G start s1" using r by (rule conjunct1)
  have r_eok: "entry_ok eng G start (g_score s1) e" using r by blast
  have r_nb: "g_score s1 (fst nb) \<noteq> None" using r by blast
  have r_mono: "g_score s1 u \<noteq> None" if "g_score s u \<noteq> None" for u using r that by blast
  have r_closed: "closed_set s1 = closed_set s" using r by blast
  have r_found: "found s1 = found s" using r by blast
  have r_keep: "fresh eng s1 u" if "fresh eng s u" for u using r that by blast
  have r_new: "fresh eng s1 u" if "g_score s1 u \<noteq> None" "g_score s u = None" for u
    using r that by blast
  have r_pot: "potential eng G start (g_score s1) < potential eng G start (g_score s) \<or> s1 = s"
    using r by blast
  have p1: "fresh eng s1 u \<or> settled G goal s1 u" if "g_score s1 u \<noteq> None" "u \<noteq> v" for u
  proof (cases "g_score s u = None")
    case True
    with that r_new show ?thesis by blast
  next
    case False
    with Cons.prems(4) that have "fresh eng s u \<or> settled G goal s u" by blast
    then show ?thesis
    proof
      assume "fresh eng s u"
      then show ?thesis using r_keep by blast
    next
      assume "settled G goal s u"
      then have "settled G goal s1 u"
        using r_mono by (rule settled_mono)
      then show ?thesis ..
    qed
  qed
  then have p1': "\<forall>u. g_score s1 u \<noteq> None \<longrightarrow> u \<noteq> v \<longrightarrow> fresh eng s1 u \<or> settled G goal s1 u"
    by blast
  note ih = Cons.IH [OF r_core r_eok nbs p1', folded t_def]
  have i_core: "core_inv eng G start t" using ih by (rule conjunct1)
  have i_nbs: "\<forall>x \<in> set nbs. g_score t (fst x) \<noteq> None" using ih by blast
  have i_mono: "g_score t u \<noteq> None" if "g_score s1 u \<noteq> None" for u using ih that by blast
  have i_closed: "closed_set t = closed_set s1" using ih by blast
  have i_found: "found t = found s1" using ih by blast
  have i_p: "\<forall>u. g_score t u \<noteq> None \<longrightarrow> u \<noteq> v \<longrightarrow> fresh eng t u \<or> settled G goal t u"
    using ih by blast
  have i_pot: "potential eng G start (g_score t) < potential eng G start (g_score s1) \<or> t = s1"
    using ih by blast
  have pot: "potential eng G start (g_score t) < potential eng G start (g_score s) \<or> t = s"
    using i_pot r_pot by auto
  have all: "\<forall>x \<in> set (nb # nbs). g_score t (fst x) \<noteq> None"
    using i_nbs i_mono [OF r_nb] by simp
  have mono: "\<forall>u. g_score s u \<noteq> None \<longrightarrow> g_score t u \<noteq> None"
    using i_mono r_mono by blast
  have eq: "foldl (relax eng G goal e) s (nb # nbs) = t"
    by (simp add: t_def s1_def)
  show ?case
    unfolding eq using i_core all mono i_closed r_closed i_found r_found i_p pot by simp
qed

lemma close_vertex_simps:
  "g_score (close_vertex eng v s) = g_score s"
  "open_list (close_vertex eng v s) = open_list s"
  "came_from (close_vertex eng v s) = came_from s"
  "found (close_vertex eng v s) = found s"
  "closed_set (close_vertex eng v s) \<subseteq> insert v (closed_set s)"
  by (cases eng; simp add: close_vertex_def; blast)+

lemma stale_close_vertex:
  "entry_vertex e \<noteq> v \<Longrightarrow> stale eng (close_vertex eng v s) e = stale eng s e"
  by (cases eng) (simp_all add: stale_def close_vertex_def)

lemma fresh_remove1:
  assumes "fresh eng s u" and "entry_vertex e \<noteq> u \<or> stale eng s e"
  shows "fresh eng (s\<lparr>open_list := remove1 e (open_list s)\<rparr>) u"
proof -
  from assms(1) obtain e' where e': "e' \<in> set (open_list s)" "entry_vertex e' = u" "\<not> stale eng s e'"
    by (auto simp: fresh_def)
  with assms(2) have "e' \<noteq> e" by blast
  with e'(1) have "e' \<in> set (remove1 e (open_list s))" by simp
  moreover have "stale eng (s\<lparr>open_list := remove1 e (open_list s)\<rparr>) e' = stale eng s e'"
    by (rule stale_cong) simp_all
  ultimately show ?thesis
    using e' unfolding fresh_def by auto
qed

lemma core_inv_remove1:
  "core_inv eng G start s \<Longrightarrow> core_inv eng G start (s\<lparr>open_list := remove1 e (open_list s)\<rparr>)"
  using set_remove1_subset [of e "open_list s"] by (auto simp: core_inv_def)

lemma step_inv:
  assumes wf: "wf_graph G" and st: "start < graph_size G"
    and inv: "search_inv eng G start goal s" and nf: "\<not> found s" and ne: "open_list s \<noteq> []"
  shows "search_inv eng G start goal (step eng G goal s) \<and>
     ((potential eng G start (g_score (step eng G goal s)), length (open_list (step eng G goal s))),
      (potential eng G start (g_score s), length (open_list s))) \<in> less_than <*lex*> less_than"
proof -
  define e where "e = select eng (open_list s)"
  define s1 where "s1 = s\<lparr>open_list := remove1 e (open_list s)\<rparr>"
  define v where "v = entry_vertex e"
  have e_in: "e \<in> set (open_list s)"
    using ne by (simp add: e_def select_in)
  have step_eq: "step eng G goal s =
      (if stale eng s1 e then s1
       else if v = goal then s1\<lparr>found := True\<rparr>
       else expand eng G goal e (close_vertex eng v s1))"
    by (simp add: step_def Let_def e_def s1_def v_def)
  have core: "core_inv eng G start s"
    using inv by (simp add: search_inv_def)
  have inv4: "fresh eng s u \<or> settled G goal s u" if "g_score s u \<noteq> None" for u
    using inv nf that by (simp add: search_inv_def)
  have core1: "core_inv eng G start s1"
    unfolding s1_def using core by (rule core_inv_remove1)
  have eok: "entry_ok eng G start (g_score s) e"
    using core e_in by (simp add: core_inv_def)
  then have v_known: "g_score s v \<noteq> None"
    by (auto simp: entry_ok_def v_def)
  have sel1: "g_score s1 = g_score s" "closed_set s1 = closed_set s" "found s1 = found s"
    "came_from s1 = came_from s" "open_list s1 = remove1 e (open_list s)"
    by (simp_all add: s1_def)
  have len: "length (open_list s1) < length (open_list s)"
    using e_in ne by (simp add: sel1 length_remove1)
  have stale1: "stale eng s1 e' = stale eng s e'" for e'
    by (rule stale_cong) (simp_all add: sel1)
  have settled1: "settled G goal s1 u = settled G goal s u" for u
    by (simp add: settled_def sel1)
  show ?thesis
  proof (cases "stale eng s1 e")
    case True
    have "fresh eng s1 u \<or> settled G goal s1 u" if "g_score s1 u \<noteq> None" for u
    proof -
      from that inv4 have "fresh eng s u \<or> settled G goal s u" by (simp add: sel1)
      then show ?thesis
      proof
        assume "fresh eng s u"
        then have "fresh eng s1 u"
          unfolding s1_def using True stale1 by (intro fresh_remove1) simp_all
        then show ?thesis ..
      next
        assume "settled G goal s u"
        then show ?thesis by (simp add: settled1)
      qed
    qed
    then have "search_inv eng G start goal s1"
      using core1 nf by (simp add: search_inv_def sel1)
    with True len show ?thesis
      by (simp add: step_eq sel1)
  next
    case live: False
    show ?thesis
    proof (cases "v = goal")
      case True
      have "core_inv eng G start (s1\<lparr>found := True\<rparr>)"
        using core1 by (simp add: core_inv_def)
      then have "search_inv eng G start goal (s1\<lparr>found := True\<rparr>)"
        using v_known True by (simp add: search_inv_def sel1)
      with live True len show ?thesis
        by (simp add: step_eq sel1)
    next
      case False
      define s2 where "s2 = close_vertex eng v s1"
      define t where "t = expand eng G goal e s2"
      have sel2: "g_score s2 = g_score s" "open_list s2 = open_list s1" "found s2 = found s"
        "came_from s2 = came_from s"
        by (simp_all add: s2_def close_vertex_simps sel1)
      have "closed_set s2 \<subseteq> insert v (closed_set s)"
        using close_vertex_simps(5) [of eng v s1] by (simp add: s2_def sel1)
      then have core2: "core_inv eng G start s2"
        using core1 v_known unfolding core_inv_def sel2 sel1 by auto
      have eok2: "entry_ok eng G start (g_score s2) e"
        using eok by (simp add: sel2)
      have p2: "\<forall>u. g_score s2 u \<noteq> None \<longrightarrow> u \<noteq> v \<longrightarrow> fresh eng s2 u \<or> settled G goal s2 u"
      proof (intro allI impI)
        fix u
        assume u: "g_score s2 u \<noteq> None" "u \<noteq> v"
        with inv4 have "fresh eng s u \<or> settled G goal s u" by (simp add: sel2)
        then show "fresh eng s2 u \<or> settled G goal s2 u"
        proof
          assume "fresh eng s u"
          then have "fresh eng s1 u"
            unfolding s1_def using u(2) by (intro fresh_remove1) (simp_all add: v_def)
          then obtain e' where e': "e' \<in> set (open_list s1)" "entry_vertex e' = u" "\<not> stale eng s1 e'"
            by (auto simp: fresh_def)
          then have "\<not> stale eng s2 e'"
            using u(2) by (simp add: s2_def stale_close_vertex)
          with e' have "fresh eng s2 u"
            unfolding fresh_def sel2 by blast
          then show ?thesis ..
        next
          assume "settled G goal s u"
          then have "settled G goal s2 u" by (simp add: settled_def sel2)
          then show ?thesis ..
        qed
      qed
      note f = expand_fold [OF wf st core2 eok2 subset_refl p2, folded expand_def, folded t_def]
      have f_core: "core_inv eng G start t" using f by (rule conjunct1)
      have f_nbs: "\<forall>nb \<in> set (graph_neighbors G (entry_vertex e)). g_score t (fst nb) \<noteq> None"
        using f by blast
      have f_found: "found t = found s2" using f by blast
      have f_p: "\<forall>u. g_score t u \<noteq> None \<longrightarrow> u \<noteq> v \<longrightarrow> fresh eng t u \<or> settled G goal t u"
        using f by blast
      have f_pot: "potential eng G start (g_score t) < potential eng G start (g_score s2) \<or> t = s2"
        using f by blast
      have "settled G goal t v"
        using False f_nbs by (simp add: settled_def v_def)
      with f_p have "\<forall>u. g_score t u \<noteq> None \<longrightarrow> fresh eng t u \<or> settled G goal t u"
        by blast
      then have inv_t: "search_inv eng G start goal t"
        using f_core f_found nf by (simp add: search_inv_def sel2)
      have "((potential eng G start (g_score t), length (open_list t)),
          (potential eng G start (g_score s), length (open_list s))) \<in> less_than <*lex*> less_than"
        using f_pot len by (auto simp: sel2)
      with inv_t live False show ?thesis
        by (simp add: step_eq t_def s2_def)
    qed
  qed
qed

lemma initial_inv:
  assumes "start < graph_size G"
  shows "search_inv eng G start goal (initial_state eng G start goal)"
proof -
  let ?s = "initial_state eng G start goal"
  let ?e = "(priority eng G goal start 0, 0 :: real, start)"
  have sel: "open_list ?s = [?e]" "g_score ?s = [start \<mapsto> 0]" "came_from ?s = Map.empty"
    "closed_set ?s = {}" "found ?s = False"
    by (simp_all add: initial_state_def)
  have "history eng G start [start \<mapsto> 0] [start] 0"
    by (rule history_start [where d = 0]) simp_all
  then have "\<exists>p. history eng G start [start \<mapsto> 0] p 0 \<and> last p = start"
    by (intro exI [of _ "[start]"]) simp
  then have eok: "entry_ok eng G start [start \<mapsto> 0] ?e"
    by (simp add: entry_ok_def entry_g_def entry_vertex_def)
  have "pred_path G Map.empty start start [start]"
    by (rule pred_path_start)
  then have chain: "chain_ok G start [start \<mapsto> 0] Map.empty start"
    unfolding chain_ok_def by (intro exI [of _ "[start]"] exI [of _ 0]) simp
  have core: "core_inv eng G start ?s"
    unfolding core_inv_def sel using eok chain assms by auto
  have "\<not> stale eng ?s ?e"
    by (cases eng) (simp_all add: stale_def initial_state_def entry_vertex_def entry_g_def)
  then have "fresh eng ?s start"
    unfolding fresh_def sel by (simp add: entry_vertex_def)
  with core show ?thesis
    by (auto simp: search_inv_def sel)
qed

lemma search_loop_terminates:
  assumes wf: "wf_graph G" and st: "start < graph_size G"
    and inv: "search_inv eng G start goal s"
  shows "\<exists>t. search_loop eng G goal s = Some t \<and> search_inv eng G start goal t \<and>
     (found t \<or> open_list t = [])"
proof -
  define m :: "search_state \<Rightarrow> nat \<times> nat"
    where "m = (\<lambda>s. (potential eng G start (g_score s), length (open_list s)))"
  have wfm: "wf (inv_image (less_than <*lex*> less_than) m)"
    by (intro wf_inv_image wf_lex_prod wf_less_than)
  show ?thesis
    using inv
  proof (induction s rule: wf_induct_rule [OF wfm])
    case (1 s)
    show ?case
    proof (cases "\<not> found s \<and> open_list s \<noteq> []")
      case True
      then have nf: "\<not> found s" and ne: "open_list s \<noteq> []" by simp_all
      note si = step_inv [OF wf st "1.prems" nf ne]
      have inv': "search_inv eng G start goal (step eng G goal s)"
        using si by (rule conjunct1)
      have "(step eng G goal s, s) \<in> inv_image (less_than <*lex*> less_than) m"
        using si by (simp add: m_def)
      from "1.IH" [OF this inv'] obtain t
        where "search_loop eng G goal (step eng G goal s) = Some t"
          and "search_inv eng G start goal t" and "found t \<or> open_list t = []"
        by blast
      then show ?thesis
        using True by (subst search_loop.simps) simp
    next
      case False
      then have "search_loop eng G goal s = Some s"
        by (subst search_loop.simps) auto
      with False "1.prems" show ?thesis by auto
    qed
  qed
qed

lemma exhausted_unreachable:
  assumes inv: "search_inv eng G start goal t" and nf: "\<not> found t" and em: "open_list t = []"
    and pe: "path_exists G start u"
  shows "g_score t u \<noteq> None \<and> u \<noteq> goal"
  using pe
proof (induction rule: path_exists.induct)
  case path_exists_start
  have "g_score t start \<noteq> None"
    using inv by (simp add: search_inv_def core_inv_def)
  moreover from this have "settled G goal t start"
    using inv nf em by (auto simp: search_inv_def fresh_def)
  ultimately show ?case by (simp add: settled_def)
next
  case (path_exists_step u v c)
  then have "settled G goal t u"
    using inv nf em by (auto simp: search_inv_def fresh_def)
  with path_exists_step.hyps(2) have known: "g_score t v \<noteq> None"
    by (auto simp: settled_def)
  then have "settled G goal t v"
    using inv nf em by (auto simp: search_inv_def fresh_def)
  with known show ?case by (simp add: settled_def)
qed

text \<open>
  C2. For a graph that keeps the graph invariants, each of the pathfinders BFS, Dijkstra
  and A* bound to it, and in-range vertices \<open>start\<close> and \<open>goal\<close>: \<open>find_path(start, goal)\<close>
  returns, and it returns the empty sequence exactly when no path from \<open>start\<close> to
  \<open>goal\<close> exists; for \<open>start = goal\<close> it returns \<open>[start]\<close>; a non-empty result begins
  with \<open>start\<close>, ends with \<open>goal\<close>, and each vertex of it is a neighbour of the one
  before.
\<close>

theorem find_path_contract:
  assumes "wf_graph G" and "start < graph_size G" and "goal < graph_size G"
  shows "\<exists>p. find_path eng G start goal = Some (Inr p) \<and>
     (p = [] \<longleftrightarrow> \<not> path_exists G start goal) \<and>
     (start = goal \<longrightarrow> p = [start]) \<and>
     (p \<noteq> [] \<longrightarrow> hd p = start \<and> last p = goal \<and> successively (edge G) p)"
proof -
  from search_loop_terminates [OF assms(1,2) initial_inv [OF assms(2)], of eng goal]
  obtain t where loop: "search_loop eng G goal (initial_state eng G start goal) = Some t"
    and inv: "search_inv eng G start goal t" and stop: "found t \<or> open_list t = []"
    by blast
  show ?thesis
  proof (cases "found t")
    case True
    with inv have "g_score t goal \<noteq> None"
      by (simp add: search_inv_def)
    with inv have "chain_ok G start (g_score t) (came_from t) goal"
      by (simp add: search_inv_def core_inv_def)
    then obtain p where p: "pred_path G (came_from t) start goal p"
      unfolding chain_ok_def by blast
    have rec: "reconstruct_path (came_from t) start goal [] = Some p"
      using reconstruct_path_pred_path [OF p, of "[]"] by simp
    have res: "find_path eng G start goal = Some (Inr p)"
      using assms(2,3) loop True rec by (simp add: find_path_def)
    have "p \<noteq> []" "hd p = start" "last p = goal"
      using pred_path_ends [OF p] by simp_all
    moreover have "successively (edge G) p"
      using p by (rule pred_path_successively)
    moreover have "path_exists G start goal"
      using p by (rule pred_path_path_exists)
    moreover have "p = [start]" if "start = goal"
      using p that pred_path_at_start by blast
    ultimately show ?thesis
      using res by blast
  next
    case False
    with stop have em: "open_list t = []" by simp
    have res: "find_path eng G start goal = Some (Inr [])"
      using assms(2,3) loop False by (simp add: find_path_def)
    have no: "\<not> path_exists G start goal"
      using exhausted_unreachable [OF inv False em, of goal] by blast
    then have "start \<noteq> goal"
      using path_exists_start [of G start] by auto
    with res no show ?thesis by simp
  qed
qed

theorem find_path_contract_witness:
  "wf_graph scenario_graph \<and> (0::nat) < graph_size scenario_graph \<and>
   3 < graph_size scenario_graph \<and> 4 < graph_size scenario_graph \<and>
   find_path AStar scenario_graph 0 3 = Some (Inr [0, 1, 2, 3]) \<and>
   path_exists scenario_graph 0 3 \<and>
   find_path BFS scenario_graph 0 4 = Some (Inr []) \<and>
   \<not> path_exists scenario_graph 0 4 \<and>
   find_path Dijkstra scenario_graph 3 3 = Some (Inr [3])"
proof -
  have wf: "wf_graph scenario_graph"
    by (auto simp: wf_graph_def scenario_graph_def graph_of_edges_def)
  have s: "(0::nat) < graph_size scenario_graph" "3 < graph_size scenario_graph"
    "4 < graph_size scenario_graph"
    by (simp_all add: scenario_graph_def graph_of_edges_def)
  have a: "find_path AStar scenario_graph 0 3 = Some (Inr [0, 1, 2, 3])"
    by code_simp
  have b: "find_path BFS scenario_graph 0 4 = Some (Inr [])"
    by code_simp
  show ?thesis
    using find_path_contract [OF wf s(1,2), of AStar] find_path_contract [OF wf s(1,3), of BFS]
      find_path_contract [OF wf s(2,2), of Dijkstra] wf s a b
    by auto
qed

end
